theory Spec2Isabelle
  imports Main "HOL-Library.Word" "HOL-Library.Multiset"
begin

section \<open>The pairing heap of \<^verbatim>\<open>priority_queue.hpp\<close>\<close>

text \<open>
  The C++ class \<^verbatim>\<open>sjtu::priority_queue<T, Compare>\<close> keeps its elements in a pairing heap
  of \<^verbatim>\<open>pq_node\<close> objects linked by raw pointers. The model keeps those objects in an
  explicit store, so that aliasing, dangling pointers and the release of nodes are all
  visible: an address is a natural number, a pointer is an optional address
  (\<open>None\<close> is \<^verbatim>\<open>nullptr\<close>), and the queue objects themselves live in the state under a
  reference, since \<^verbatim>\<open>merge\<close>, the copy constructor and the assignment receive a second
  queue by reference.
\<close>

subsection \<open>Data model\<close>

type_synonym addr = nat
type_synonym ptr = "addr option"
type_synonym qref = nat

text \<open>\<^verbatim>\<open>struct pq_node { T val; pq_node *child, *sibling; }\<close>\<close>

record 'a pq_node =
  val :: 'a
  child :: ptr
  sibling :: ptr

text \<open>
  The data members of the class: \<^verbatim>\<open>pq_node *root = nullptr; size_t raw_size_ = 0;\<close>.
  \<^verbatim>\<open>size_t\<close> is taken as the 64-bit unsigned integer of the usual targets; its arithmetic
  wraps around.
\<close>

record priority_queue =
  root :: ptr
  raw_size :: "64 word"

text \<open>
  What an operation can end with, other than returning: the two exception classes of
  \<^verbatim>\<open>exceptions.hpp\<close> that the file throws, an exception of the user's comparator (of any
  type \<open>'e\<close>), and the access through a null or dangling pointer, which C++ leaves
  undefined and no \<^verbatim>\<open>catch\<close> clause intercepts.
\<close>

datatype 'e error =
  container_is_empty
  | runtime_error
  | comparator_threw 'e
  | undefined_behaviour

datatype ('e, 'r) outcome = Ok 'r | Throw "'e error"

text \<open>
  The state: the store of nodes with the next address that \<^verbatim>\<open>new\<close> hands out, the queue
  objects, and the record of the comparator's invocations so far (the pairs of
  arguments, oldest first). The comparator is \<^verbatim>\<open>Compare()(x, y)\<close>: it returns a boolean
  or throws, and since a comparator may keep state of its own across invocations its
  result may depend on the invocations that came before.
\<close>

record 'a state =
  nodes :: "addr \<rightharpoonup> 'a pq_node"
  next_addr :: addr
  queues :: "qref \<Rightarrow> priority_queue"
  calls :: "('a \<times> 'a) list"

type_synonym ('a, 'e) Compare = "('a \<times> 'a) list \<Rightarrow> 'a \<Rightarrow> 'a \<Rightarrow> 'e + bool"

text \<open>
  A computation takes the state to an outcome and the state it leaves behind (an
  exception keeps every write made before it). \<open>None\<close> stands for a computation that
  does not return: the recursive functions and the loop below carry a bound on their
  depth, and exhaust it only on a cyclic graph.
\<close>

type_synonym ('a, 'e, 'r) prog = "'a state \<Rightarrow> (('e, 'r) outcome \<times> 'a state) option"

definition ret :: "'r \<Rightarrow> ('a, 'e, 'r) prog" where
  "ret x = (\<lambda>s. Some (Ok x, s))"

definition throw :: "'e error \<Rightarrow> ('a, 'e, 'r) prog" where
  "throw e = (\<lambda>s. Some (Throw e, s))"

definition bnd :: "('a, 'e, 'r) prog \<Rightarrow> ('r \<Rightarrow> ('a, 'e, 'q) prog) \<Rightarrow> ('a, 'e, 'q) prog" where
  "bnd m f = (\<lambda>s. case m s of
       None \<Rightarrow> None
     | Some (Ok x, s') \<Rightarrow> f x s'
     | Some (Throw e, s') \<Rightarrow> Some (Throw e, s'))"

text \<open>\<^verbatim>\<open>try { m } catch (...) { h }\<close>: every C++ exception is caught.\<close>

definition catch_all :: "('a, 'e, 'r) prog \<Rightarrow> ('a, 'e, 'r) prog \<Rightarrow> ('a, 'e, 'r) prog" where
  "catch_all m h = (\<lambda>s. case m s of
       None \<Rightarrow> None
     | Some (Ok x, s') \<Rightarrow> Some (Ok x, s')
     | Some (Throw e, s') \<Rightarrow>
         (case e of undefined_behaviour \<Rightarrow> Some (Throw e, s') | _ \<Rightarrow> h s'))"

text \<open>\<^verbatim>\<open>try { m } catch (runtime_error&) { h }\<close>\<close>

definition catch_runtime_error ::
  "('a, 'e, 'r) prog \<Rightarrow> ('a, 'e, 'r) prog \<Rightarrow> ('a, 'e, 'r) prog" where
  "catch_runtime_error m h = (\<lambda>s. case m s of
       None \<Rightarrow> None
     | Some (Ok x, s') \<Rightarrow> Some (Ok x, s')
     | Some (Throw e, s') \<Rightarrow>
         (case e of runtime_error \<Rightarrow> h s' | _ \<Rightarrow> Some (Throw e, s')))"

subsection \<open>Accesses to the store\<close>

text \<open>Reading through a pointer: null and dangling pointers are undefined behaviour.\<close>

definition read_node :: "ptr \<Rightarrow> ('a, 'e, 'a pq_node) prog" where
  "read_node p = (\<lambda>s. case p of
       None \<Rightarrow> Some (Throw undefined_behaviour, s)
     | Some a \<Rightarrow> (case nodes s a of
         None \<Rightarrow> Some (Throw undefined_behaviour, s)
       | Some n \<Rightarrow> Some (Ok n, s)))"

text \<open>\<^verbatim>\<open>p->child = c\<close> and \<^verbatim>\<open>p->sibling = c\<close>\<close>

definition set_child :: "ptr \<Rightarrow> ptr \<Rightarrow> ('a, 'e, unit) prog" where
  "set_child p c = (\<lambda>s. case p of
       None \<Rightarrow> Some (Throw undefined_behaviour, s)
     | Some a \<Rightarrow> (case nodes s a of
         None \<Rightarrow> Some (Throw undefined_behaviour, s)
       | Some n \<Rightarrow> Some (Ok (), s\<lparr>nodes := (nodes s)(a \<mapsto> n\<lparr>child := c\<rparr>)\<rparr>)))"

definition set_sibling :: "ptr \<Rightarrow> ptr \<Rightarrow> ('a, 'e, unit) prog" where
  "set_sibling p c = (\<lambda>s. case p of
       None \<Rightarrow> Some (Throw undefined_behaviour, s)
     | Some a \<Rightarrow> (case nodes s a of
         None \<Rightarrow> Some (Throw undefined_behaviour, s)
       | Some n \<Rightarrow> Some (Ok (), s\<lparr>nodes := (nodes s)(a \<mapsto> n\<lparr>sibling := c\<rparr>)\<rparr>)))"

text \<open>\<^verbatim>\<open>new pq_node(v, c, sb)\<close>: a node at an address not handed out before.\<close>

definition new_node :: "'a \<Rightarrow> ptr \<Rightarrow> ptr \<Rightarrow> ('a, 'e, ptr) prog" where
  "new_node v c sb = (\<lambda>s. Some (Ok (Some (next_addr s)),
       s\<lparr>nodes := (nodes s)(next_addr s \<mapsto> \<lparr>val = v, child = c, sibling = sb\<rparr>),
         next_addr := Suc (next_addr s)\<rparr>))"

text \<open>\<^verbatim>\<open>delete p\<close>: nothing for a null pointer, undefined for a dangling one.\<close>

definition delete_node :: "ptr \<Rightarrow> ('a, 'e, unit) prog" where
  "delete_node p = (\<lambda>s. case p of
       None \<Rightarrow> Some (Ok (), s)
     | Some a \<Rightarrow> (case nodes s a of
         None \<Rightarrow> Some (Throw undefined_behaviour, s)
       | Some n \<Rightarrow> Some (Ok (), s\<lparr>nodes := (nodes s)(a := None)\<rparr>)))"

text \<open>\<^verbatim>\<open>Compare()(x, y)\<close>: the invocation is recorded, whether it returns or throws.\<close>

definition call_Compare :: "('a, 'e) Compare \<Rightarrow> 'a \<Rightarrow> 'a \<Rightarrow> ('a, 'e, bool) prog" where
  "call_Compare cmp x y = (\<lambda>s. case cmp (calls s) x y of
       Inl e \<Rightarrow> Some (Throw (comparator_threw e), s\<lparr>calls := calls s @ [(x, y)]\<rparr>)
     | Inr b \<Rightarrow> Some (Ok b, s\<lparr>calls := calls s @ [(x, y)]\<rparr>))"

text \<open>The members of the queue object behind a reference.\<close>

definition get_root :: "qref \<Rightarrow> ('a, 'e, ptr) prog" where
  "get_root this = (\<lambda>s. Some (Ok (root (queues s this)), s))"

definition set_root :: "qref \<Rightarrow> ptr \<Rightarrow> ('a, 'e, unit) prog" where
  "set_root this p = (\<lambda>s. Some (Ok (),
       s\<lparr>queues := (queues s)(this := (queues s this)\<lparr>root := p\<rparr>)\<rparr>))"

definition get_raw_size :: "qref \<Rightarrow> ('a, 'e, 64 word) prog" where
  "get_raw_size this = (\<lambda>s. Some (Ok (raw_size (queues s this)), s))"

definition set_raw_size :: "qref \<Rightarrow> 64 word \<Rightarrow> ('a, 'e, unit) prog" where
  "set_raw_size this n = (\<lambda>s. Some (Ok (),
       s\<lparr>queues := (queues s)(this := (queues s this)\<lparr>raw_size := n\<rparr>)\<rparr>))"

subsection \<open>The node operations\<close>

text \<open>
  \<^verbatim>\<open>pq_node *recursive_dup() const\<close>, called on the node \<open>this\<close>: the new node first,
  then the copy of the child's graph, then the copy of the sibling's.
\<close>

fun recursive_dup :: "nat \<Rightarrow> ptr \<Rightarrow> ('a, 'e, ptr) prog" where
  "recursive_dup 0 this = (\<lambda>s. None)"
| "recursive_dup (Suc k) this =
     bnd (read_node this) (\<lambda>n.
     bnd (new_node (val n) None None) (\<lambda>new_self_ptr.
     bnd (read_node this) (\<lambda>n1.
     bnd (if child n1 \<noteq> None
          then bnd (recursive_dup k (child n1)) (\<lambda>c. set_child new_self_ptr c)
          else ret ()) (\<lambda>_.
     bnd (read_node this) (\<lambda>n2.
     bnd (if sibling n2 \<noteq> None
          then bnd (recursive_dup k (sibling n2)) (\<lambda>c. set_sibling new_self_ptr c)
          else ret ()) (\<lambda>_.
     ret new_self_ptr))))))"

text \<open>
  \<^verbatim>\<open>void recursive_del()\<close>, called on the node \<open>this\<close>: releases everything below and to
  the right of the node, not the node.
\<close>

fun recursive_del :: "nat \<Rightarrow> ptr \<Rightarrow> ('a, 'e, unit) prog" where
  "recursive_del 0 this = (\<lambda>s. None)"
| "recursive_del (Suc k) this =
     bnd (read_node this) (\<lambda>n.
     bnd (if child n \<noteq> None
          then bnd (recursive_del k (child n)) (\<lambda>_.
               bnd (read_node this) (\<lambda>n'. delete_node (child n')))
          else ret ()) (\<lambda>_.
     bnd (read_node this) (\<lambda>n1.
     if sibling n1 \<noteq> None
     then bnd (recursive_del k (sibling n1)) (\<lambda>_.
          bnd (read_node this) (\<lambda>n2. delete_node (sibling n2)))
     else ret ())))"

subsection \<open>The heap engine\<close>

text \<open>
  \<^verbatim>\<open>static pq_node *meld_nodes(pq_node *node_a, pq_node *node_b)\<close>. The two pointer
  assignments of each branch are made one after the other on the store, as the code
  makes them.
\<close>

definition meld_nodes :: "('a, 'e) Compare \<Rightarrow> ptr \<Rightarrow> ptr \<Rightarrow> ('a, 'e, ptr) prog" where
  "meld_nodes cmp node_a node_b =
     (if node_a = None then ret node_b
      else if node_b = None then ret node_a
      else catch_all
        (bnd (read_node node_a) (\<lambda>na.
         bnd (read_node node_b) (\<lambda>nb.
         bnd (call_Compare cmp (val na) (val nb)) (\<lambda>less.
         if less then
           bnd (read_node node_b) (\<lambda>nb1.
           bnd (set_sibling node_a (child nb1)) (\<lambda>_.
           bnd (set_child node_b node_a) (\<lambda>_.
           ret node_b)))
         else
           bnd (read_node node_a) (\<lambda>na1.
           bnd (set_sibling node_b (child na1)) (\<lambda>_.
           bnd (set_child node_a node_b) (\<lambda>_.
           ret node_a)))))))
        (throw runtime_error))"

text \<open>
  \<^verbatim>\<open>static void compare_siblings(pq_node *begin)\<close>: the \<^verbatim>\<open>while\<close> loop, then the function
  with its \<^verbatim>\<open>try\<close> block around the null test and the loop.
\<close>

fun compare_siblings_loop :: "('a, 'e) Compare \<Rightarrow> nat \<Rightarrow> ptr \<Rightarrow> ('a, 'e, unit) prog" where
  "compare_siblings_loop cmp 0 begin = (\<lambda>s. None)"
| "compare_siblings_loop cmp (Suc k) begin =
     bnd (read_node begin) (\<lambda>n.
     if sibling n \<noteq> None then
       bnd (read_node (sibling n)) (\<lambda>m.
       bnd (call_Compare cmp (val n) (val m)) (\<lambda>_.
       compare_siblings_loop cmp k (sibling n)))
     else ret ())"

definition compare_siblings :: "('a, 'e) Compare \<Rightarrow> nat \<Rightarrow> ptr \<Rightarrow> ('a, 'e, unit) prog" where
  "compare_siblings cmp fuel begin =
     catch_all
       (if begin = None then ret () else compare_siblings_loop cmp fuel begin)
       (throw runtime_error)"

text \<open>\<^verbatim>\<open>static pq_node *merge_siblings(pq_node *begin)\<close>\<close>

fun merge_siblings :: "('a, 'e) Compare \<Rightarrow> nat \<Rightarrow> ptr \<Rightarrow> ('a, 'e, ptr) prog" where
  "merge_siblings cmp 0 begin = (\<lambda>s. None)"
| "merge_siblings cmp (Suc k) begin =
     (if begin = None then ret begin
      else
        bnd (read_node begin) (\<lambda>n.
        if sibling n = None then ret begin
        else
          bnd (read_node (sibling n)) (\<lambda>m.
          bnd (set_sibling begin None) (\<lambda>_.
          bnd (set_sibling (sibling n) None) (\<lambda>_.
          bnd (meld_nodes cmp begin (sibling n)) (\<lambda>self_and_sib.
          bnd (merge_siblings cmp k (sibling m)) (\<lambda>sib_of_sib.
          meld_nodes cmp self_and_sib sib_of_sib)))))))"

subsection \<open>The queue\<close>

text \<open>\<^verbatim>\<open>priority_queue() = default\<close>: the default member initialisers.\<close>

definition default_ctor :: "qref \<Rightarrow> ('a, 'e, unit) prog" where
  "default_ctor this = (\<lambda>s. Some (Ok (),
       s\<lparr>queues := (queues s)(this := \<lparr>root = None, raw_size = 0\<rparr>)\<rparr>))"

text \<open>
  \<^verbatim>\<open>priority_queue &operator=(const priority_queue &other)\<close>. The source's root is
  dereferenced for \<^verbatim>\<open>recursive_dup\<close> without a test.
\<close>

definition assign :: "nat \<Rightarrow> qref \<Rightarrow> qref \<Rightarrow> ('a, 'e, unit) prog" where
  "assign fuel this other =
     bnd (get_root this) (\<lambda>r.
     bnd (get_root other) (\<lambda>ro.
     if r = ro then ret ()
     else
       bnd (if r \<noteq> None
            then bnd (recursive_del fuel r) (\<lambda>_. delete_node r)
            else ret ()) (\<lambda>_.
       bnd (get_root other) (\<lambda>ro1.
       bnd (recursive_dup fuel ro1) (\<lambda>d.
       bnd (set_root this d) (\<lambda>_.
       bnd (get_raw_size other) (\<lambda>n.
       set_raw_size this n)))))))"

text \<open>
  \<^verbatim>\<open>priority_queue(const priority_queue &other)\<close>: the members of the new object get
  their default initialisers, then the body runs, which is that of the assignment.
\<close>

definition copy_ctor :: "nat \<Rightarrow> qref \<Rightarrow> qref \<Rightarrow> ('a, 'e, unit) prog" where
  "copy_ctor fuel this other = bnd (default_ctor this) (\<lambda>_. assign fuel this other)"

text \<open>\<^verbatim>\<open>~priority_queue()\<close>\<close>

definition dtor :: "nat \<Rightarrow> qref \<Rightarrow> ('a, 'e, unit) prog" where
  "dtor fuel this =
     bnd (get_root this) (\<lambda>r.
     if r \<noteq> None then bnd (recursive_del fuel r) (\<lambda>_. delete_node r) else ret ())"

text \<open>\<^verbatim>\<open>size_t size() const\<close> and \<^verbatim>\<open>bool empty() const\<close>\<close>

definition size_pq :: "qref \<Rightarrow> ('a, 'e, 64 word) prog" where
  "size_pq this = get_raw_size this"

definition empty_pq :: "qref \<Rightarrow> ('a, 'e, bool) prog" where
  "empty_pq this = bnd (get_root this) (\<lambda>r. ret (r = None))"

text \<open>\<^verbatim>\<open>const T &top() const\<close>\<close>

definition top_pq :: "qref \<Rightarrow> ('a, 'e, 'a) prog" where
  "top_pq this =
     bnd (empty_pq this) (\<lambda>e.
     if e then throw container_is_empty
     else bnd (get_root this) (\<lambda>r. bnd (read_node r) (\<lambda>n. ret (val n))))"

text \<open>\<^verbatim>\<open>void push(const T &e)\<close>\<close>

definition push :: "('a, 'e) Compare \<Rightarrow> qref \<Rightarrow> 'a \<Rightarrow> ('a, 'e, unit) prog" where
  "push cmp this e =
     bnd (new_node e None None) (\<lambda>new_node_ptr.
     catch_runtime_error
       (bnd (get_root this) (\<lambda>r.
        bnd (meld_nodes cmp r new_node_ptr) (\<lambda>m.
        bnd (set_root this m) (\<lambda>_.
        bnd (get_raw_size this) (\<lambda>n.
        set_raw_size this (n + 1))))))
       (bnd (delete_node new_node_ptr) (\<lambda>_. throw runtime_error)))"

text \<open>\<^verbatim>\<open>void pop()\<close>\<close>

definition pop :: "('a, 'e) Compare \<Rightarrow> nat \<Rightarrow> qref \<Rightarrow> ('a, 'e, unit) prog" where
  "pop cmp fuel this =
     bnd (get_root this) (\<lambda>r.
     if r = None then throw container_is_empty
     else
       bnd (read_node r) (\<lambda>n.
       bnd (compare_siblings cmp fuel (child n)) (\<lambda>_.
       bnd (read_node r) (\<lambda>n1.
       bnd (merge_siblings cmp fuel (child n1)) (\<lambda>new_root.
       bnd (get_root this) (\<lambda>r1.
       bnd (delete_node r1) (\<lambda>_.
       bnd (set_root this new_root) (\<lambda>_.
       bnd (get_raw_size this) (\<lambda>c.
       set_raw_size this (c - 1))))))))))"

text \<open>\<^verbatim>\<open>void merge(priority_queue &other)\<close>\<close>

definition merge :: "('a, 'e) Compare \<Rightarrow> qref \<Rightarrow> qref \<Rightarrow> ('a, 'e, unit) prog" where
  "merge cmp this other =
     bnd (get_root this) (\<lambda>r.
     bnd (get_root other) (\<lambda>ro.
     bnd (meld_nodes cmp r ro) (\<lambda>m.
     bnd (set_root this m) (\<lambda>_.
     bnd (set_root other None) (\<lambda>_.
     bnd (get_raw_size this) (\<lambda>n.
     bnd (get_raw_size other) (\<lambda>no.
     bnd (set_raw_size this (n + no)) (\<lambda>_.
     set_raw_size other 0))))))))"

text \<open>The state before any queue is used: no node, every queue object default-constructed.\<close>

definition init_state :: "'a state" where
  "init_state = \<lparr>nodes = Map.empty, next_addr = 0,
     queues = (\<lambda>_. \<lparr>root = None, raw_size = 0\<rparr>), calls = []\<rparr>"

subsection \<open>What a store holds behind a pointer\<close>

text \<open>
  The graph behind a pointer, read off the store: the node's address and value, the
  graph behind its \<^verbatim>\<open>child\<close> and the graph behind its \<^verbatim>\<open>sibling\<close>. \<open>tree_of\<close> follows
  the pointers to a bounded depth and gives \<open>None\<close> where it meets a dangling pointer
  or exceeds the bound.
\<close>

datatype 'a ntree = Absent | NodeAt addr 'a "'a ntree" "'a ntree"

fun tree_of :: "nat \<Rightarrow> (addr \<rightharpoonup> 'a pq_node) \<Rightarrow> ptr \<Rightarrow> 'a ntree option" where
  "tree_of 0 h p = None"
| "tree_of (Suc k) h p = (case p of
       None \<Rightarrow> Some Absent
     | Some a \<Rightarrow> (case h a of
         None \<Rightarrow> None
       | Some n \<Rightarrow> (case tree_of k h (child n) of
           None \<Rightarrow> None
         | Some c \<Rightarrow> (case tree_of k h (sibling n) of
             None \<Rightarrow> None
           | Some sb \<Rightarrow> Some (NodeAt a (val n) c sb)))))"

text \<open>The addresses of a graph, the root first, then the child graph, then the sibling graph.\<close>

fun addrs :: "'a ntree \<Rightarrow> addr list" where
  "addrs Absent = []"
| "addrs (NodeAt a v c sb) = a # addrs c @ addrs sb"

text \<open>The values a graph holds, with multiplicity.\<close>

fun elems :: "'a ntree \<Rightarrow> 'a multiset" where
  "elems Absent = {#}"
| "elems (NodeAt a v c sb) = {#v#} + elems c + elems sb"

text \<open>The height of a graph: a bound on the nesting of the recursive member functions.\<close>

fun depth :: "'a ntree \<Rightarrow> nat" where
  "depth Absent = 0"
| "depth (NodeAt a v c sb) = Suc (max (depth c) (depth sb))"

text \<open>The pointer to a graph: null for the absent graph.\<close>

fun root_ptr :: "'a ntree \<Rightarrow> ptr" where
  "root_ptr Absent = None"
| "root_ptr (NodeAt a v c sb) = Some a"

text \<open>The store holds the graph: every node is allocated, with the value and the two links the graph gives it.\<close>

fun stored :: "(addr \<rightharpoonup> 'a pq_node) \<Rightarrow> 'a ntree \<Rightarrow> bool" where
  "stored h Absent = True"
| "stored h (NodeAt a v c sb) =
     (h a = Some \<lparr>val = v, child = root_ptr c, sibling = root_ptr sb\<rparr> \<and> stored h c \<and> stored h sb)"

text \<open>What \<^verbatim>\<open>meld_nodes\<close> builds when the comparator answers as \<open>lt\<close>: the root that is less goes first in the child list of the other.\<close>

fun meld_t :: "('a \<Rightarrow> 'a \<Rightarrow> bool) \<Rightarrow> 'a ntree \<Rightarrow> 'a ntree \<Rightarrow> 'a ntree" where
  "meld_t lt Absent t = t"
| "meld_t lt t Absent = t"
| "meld_t lt (NodeAt a va ca sa) (NodeAt b vb cb sb) =
     (if lt va vb then NodeAt b vb (NodeAt a va ca cb) sb
      else NodeAt a va (NodeAt b vb cb ca) sa)"

text \<open>Two states differ at most in the nodes at the addresses of \<open>A\<close> and in the record of comparator calls.\<close>

definition same_except :: "addr set \<Rightarrow> 'a state \<Rightarrow> 'a state \<Rightarrow> bool" where
  "same_except A s s' =
     ((\<forall>x. x \<notin> A \<longrightarrow> nodes s' x = nodes s x) \<and> queues s' = queues s \<and> next_addr s' = next_addr s)"

text \<open>The answer of the comparator invocation of \<^verbatim>\<open>meld_nodes\<close> on two graphs, and the invocation it records; none when a graph is absent.\<close>

definition meld_answer :: "('a, 'e) Compare \<Rightarrow> ('a \<times> 'a) list \<Rightarrow> 'a ntree \<Rightarrow> 'a ntree \<Rightarrow> 'e + bool" where
  "meld_answer cmp log ta tb = (case ta of
       Absent \<Rightarrow> Inr False
     | NodeAt a va ca sa \<Rightarrow> (case tb of
         Absent \<Rightarrow> Inr False
       | NodeAt b vb cb sb \<Rightarrow> cmp log va vb))"

definition meld_calls :: "'a ntree \<Rightarrow> 'a ntree \<Rightarrow> ('a \<times> 'a) list" where
  "meld_calls ta tb = (case ta of
       Absent \<Rightarrow> []
     | NodeAt a va ca sa \<Rightarrow> (case tb of
         Absent \<Rightarrow> []
       | NodeAt b vb cb sb \<Rightarrow> [(va, vb)]))"

text \<open>The address of the root, as a set.\<close>

fun root_addr :: "'a ntree \<Rightarrow> addr set" where
  "root_addr Absent = {}"
| "root_addr (NodeAt a v c sb) = {a}"

text \<open>Whenever the comparator returns, it returns what the relation \<open>lt\<close> says.\<close>

definition cmp_agrees :: "('a, 'e) Compare \<Rightarrow> ('a \<Rightarrow> 'a \<Rightarrow> bool) \<Rightarrow> bool" where
  "cmp_agrees cmp lt = (\<forall>log a b r. cmp log a b = Inr r \<longrightarrow> r = lt a b)"

text \<open>What \<^verbatim>\<open>merge_siblings\<close> builds from a sibling list when the comparator answers as \<open>lt\<close>.\<close>

fun merge_pairs :: "('a \<Rightarrow> 'a \<Rightarrow> bool) \<Rightarrow> 'a ntree \<Rightarrow> 'a ntree" where
  "merge_pairs lt Absent = Absent"
| "merge_pairs lt (NodeAt a v c Absent) = NodeAt a v c Absent"
| "merge_pairs lt (NodeAt a va ca (NodeAt b vb cb rest)) =
     meld_t lt (meld_t lt (NodeAt a va ca Absent) (NodeAt b vb cb Absent)) (merge_pairs lt rest)"

text \<open>A graph whose root has no sibling, as the root of a queue.\<close>

fun sibling_free :: "'a ntree \<Rightarrow> bool" where
  "sibling_free Absent = True"
| "sibling_free (NodeAt a v c sb) = (sb = Absent)"

text \<open>The graph \<^verbatim>\<open>recursive_dup\<close> allocates from address \<open>n\<close> on: nodes are numbered in the order of allocation.\<close>

fun relocate :: "addr \<Rightarrow> 'a ntree \<Rightarrow> 'a ntree" where
  "relocate n Absent = Absent"
| "relocate n (NodeAt a v c sb) =
     NodeAt n v (relocate (Suc n) c) (relocate (Suc n + length (addrs c)) sb)"

text \<open>Every run that ends in the first program ends in the second with the same result.\<close>

definition fuel_le :: "('a, 'e, 'r) prog \<Rightarrow> ('a, 'e, 'r) prog \<Rightarrow> bool" where
  "fuel_le m m' = (\<forall>s x. m s = Some x \<longrightarrow> m' s = Some x)"

text \<open>No node lives at an address the allocator has not handed out.\<close>

definition heap_ok :: "'a state \<Rightarrow> bool" where
  "heap_ok s = (\<forall>x. next_addr s \<le> x \<longrightarrow> nodes s x = None)"

subsection \<open>Priority order\<close>

text \<open>
  What C++ requires of a \<^verbatim>\<open>Compare\<close>: a strict weak ordering, here as asymmetry together
  with transitivity of "not less". \<open>cmp_agrees\<close> above ties a comparator to such a relation
  wherever it returns. In a heap-ordered graph no node is less than one of its children,
  the children of a node being the nodes on the sibling chain that starts at its
  \<^verbatim>\<open>child\<close>.
\<close>

definition strict_weak_order :: "('a \<Rightarrow> 'a \<Rightarrow> bool) \<Rightarrow> bool" where
  "strict_weak_order lt =
     ((\<forall>a b. lt a b \<longrightarrow> \<not> lt b a) \<and> (\<forall>a b c. \<not> lt a b \<and> \<not> lt b c \<longrightarrow> \<not> lt a c))"

fun chain_vals :: "'a ntree \<Rightarrow> 'a list" where
  "chain_vals Absent = []"
| "chain_vals (NodeAt a v c sb) = v # chain_vals sb"

fun heap_ordered :: "('a \<Rightarrow> 'a \<Rightarrow> bool) \<Rightarrow> 'a ntree \<Rightarrow> bool" where
  "heap_ordered lt Absent = True"
| "heap_ordered lt (NodeAt a v c sb) =
     (list_all (\<lambda>x. \<not> lt v x) (chain_vals c) \<and> heap_ordered lt c \<and> heap_ordered lt sb)"

subsection \<open>Copies and what a queue shows\<close>

text \<open>
  Two graphs have the same shape when they agree on everything but the addresses.
  \<open>unchanged_for q s s'\<close> says that \<^verbatim>\<open>top()\<close> and \<^verbatim>\<open>size()\<close> of queue \<open>q\<close> give the same
  outcome in \<open>s'\<close> as in \<open>s\<close> (the two observers never invoke the comparator, so its
  exception type is left at \<open>unit\<close>). \<open>independent_after\<close> collects what claim C8 says of
  the state right after \<open>C\<close> was copied from \<open>A\<close>, whose graph is \<open>ta\<close>: \<open>C\<close> holds a graph
  of the same shape on other addresses, \<open>A\<close> still holds \<open>ta\<close>, \<^verbatim>\<open>push\<close> and \<^verbatim>\<open>pop\<close> (with
  fuel \<open>k\<close>) return on both, and whatever they do to one queue, the other shows the same
  top and size as before.
\<close>

fun same_shape :: "'a ntree \<Rightarrow> 'a ntree \<Rightarrow> bool" where
  "same_shape Absent Absent = True"
| "same_shape (NodeAt a v c sb) (NodeAt a' v' c' sb') =
     (v = v' \<and> same_shape c c' \<and> same_shape sb sb')"
| "same_shape t t' = False"

definition unchanged_for :: "qref \<Rightarrow> 'a state \<Rightarrow> 'a state \<Rightarrow> bool" where
  "unchanged_for q s s' =
     (map_option fst ((top_pq q :: ('a, unit, 'a) prog) s') = map_option fst (top_pq q s)
    \<and> map_option fst ((size_pq q :: ('a, unit, 64 word) prog) s') = map_option fst (size_pq q s))"

definition independent_after ::
  "('a, 'e) Compare \<Rightarrow> qref \<Rightarrow> qref \<Rightarrow> 'a ntree \<Rightarrow> nat \<Rightarrow> 'a state \<Rightarrow> bool" where
  "independent_after cmp C A ta k s =
     ((\<exists>tc. root (queues s C) = root_ptr tc \<and> stored (nodes s) tc \<and> distinct (addrs tc)
          \<and> same_shape ta tc \<and> set (addrs tc) \<inter> set (addrs ta) = {}
          \<and> root (queues s A) = root_ptr ta \<and> stored (nodes s) ta
          \<and> raw_size (queues s C) = raw_size (queues s A))
    \<and> (\<forall>e. (\<exists>r s'. push cmp C e s = Some (r, s')) \<and> (\<exists>r s'. push cmp A e s = Some (r, s')))
    \<and> (\<exists>r s'. pop cmp k C s = Some (r, s')) \<and> (\<exists>r s'. pop cmp k A s = Some (r, s'))
    \<and> (\<forall>e k' r s'. push cmp C e s = Some (r, s') \<or> pop cmp k' C s = Some (r, s') \<longrightarrow>
          unchanged_for A s s')
    \<and> (\<forall>e k' r s'. push cmp A e s = Some (r, s') \<or> pop cmp k' A s = Some (r, s') \<longrightarrow>
          unchanged_for C s s'))"

subsection \<open>Sequences of public operations\<close>

text \<open>
  The public operations of the class, each on the queue object behind its reference
  (the destructor ends the lifetime of its object, so nothing follows it on that object
  and it is left out). \<open>exec\<close> runs one operation, dropping the value the three
  observers return; \<open>run\<close> runs a sequence and stops at the first operation that does not
  return normally.
\<close>

datatype 'a operation =
  Construct qref
  | CopyConstruct qref qref
  | Assign qref qref
  | Push qref 'a
  | Pop qref
  | Top qref
  | Size qref
  | Empty qref
  | Merge qref qref

fun exec :: "('a, 'e) Compare \<Rightarrow> nat \<Rightarrow> 'a operation \<Rightarrow> ('a, 'e, unit) prog" where
  "exec cmp fuel (Construct q) = default_ctor q"
| "exec cmp fuel (CopyConstruct q q') = copy_ctor fuel q q'"
| "exec cmp fuel (Assign q q') = assign fuel q q'"
| "exec cmp fuel (Push q e) = push cmp q e"
| "exec cmp fuel (Pop q) = pop cmp fuel q"
| "exec cmp fuel (Top q) = bnd (top_pq q) (\<lambda>_. ret ())"
| "exec cmp fuel (Size q) = bnd (size_pq q) (\<lambda>_. ret ())"
| "exec cmp fuel (Empty q) = bnd (empty_pq q) (\<lambda>_. ret ())"
| "exec cmp fuel (Merge q q') = merge cmp q q'"

fun run :: "('a, 'e) Compare \<Rightarrow> nat \<Rightarrow> 'a operation list \<Rightarrow> ('a, 'e, unit) prog" where
  "run cmp fuel [] = ret ()"
| "run cmp fuel (x # xs) = bnd (exec cmp fuel x) (\<lambda>_. run cmp fuel xs)"

text \<open>
  The invariant of the states such sequences reach: every queue \<open>q\<close> holds, at its root, a
  graph \<open>T q\<close> of distinct nodes that is in the store, has no sibling at its root and is
  heap-ordered; the graphs of different queues share no node; and no node lies at or
  beyond the next address to hand out.
\<close>

definition world_ok :: "('a \<Rightarrow> 'a \<Rightarrow> bool) \<Rightarrow> 'a state \<Rightarrow> (qref \<Rightarrow> 'a ntree) \<Rightarrow> bool" where
  "world_ok lt s T =
     (heap_ok s
    \<and> (\<forall>q. root (queues s q) = root_ptr (T q) \<and> stored (nodes s) (T q)
          \<and> distinct (addrs (T q)) \<and> sibling_free (T q) \<and> heap_ordered lt (T q))
    \<and> (\<forall>q q'. q \<noteq> q' \<longrightarrow> set (addrs (T q)) \<inter> set (addrs (T q')) = {}))"

subsection \<open>Test drivers and comparators\<close>

text \<open>A sequence of \<^verbatim>\<open>push\<close> calls on one queue, stopping at the first that throws.\<close>

fun push_all :: "('a, 'e) Compare \<Rightarrow> qref \<Rightarrow> 'a list \<Rightarrow> ('a, 'e, unit) prog" where
  "push_all cmp this [] = ret ()"
| "push_all cmp this (e # es) = bnd (push cmp this e) (\<lambda>_. push_all cmp this es)"

text \<open>\<^verbatim>\<open>std::less<int>\<close>, and the same except that comparing \<open>x\<close> with \<open>y\<close> throws.\<close>

definition std_less :: "(int, unit) Compare" where
  "std_less log a b = Inr (a < b)"

definition less_throwing_on :: "int \<Rightarrow> int \<Rightarrow> (int, unit) Compare" where
  "less_throwing_on x y log a b = (if a = x \<and> b = y then Inl () else Inr (a < b))"

text \<open>\<^verbatim>\<open>std::less<int>\<close>, except that the invocation after \<open>n\<close> earlier ones throws.\<close>

definition less_throwing_at :: "nat \<Rightarrow> (int, unit) Compare" where
  "less_throwing_at n log a b = (if length log = n then Inl () else Inr (a < b))"

text \<open>
  The state after \<^verbatim>\<open>push(10); push(1); push(2); push(3)\<close> on queue 0 of the initial
  state, and the graph of that queue: the root 10 with the children 3, 2, 1.
\<close>

definition four_pushed :: "int state" where
  "four_pushed = \<lparr>
     nodes = [0 \<mapsto> \<lparr>val = 10, child = Some 3, sibling = None\<rparr>,
              1 \<mapsto> \<lparr>val = 1, child = None, sibling = None\<rparr>,
              2 \<mapsto> \<lparr>val = 2, child = None, sibling = Some 1\<rparr>,
              3 \<mapsto> \<lparr>val = 3, child = None, sibling = Some 2\<rparr>],
     next_addr = 4,
     queues = (\<lambda>_. \<lparr>root = None, raw_size = 0\<rparr>)(0 := \<lparr>root = Some 0, raw_size = 4\<rparr>),
     calls = [(10, 1), (10, 2), (10, 3)]\<rparr>"

definition four_tree :: "int ntree" where
  "four_tree = NodeAt 0 10 (NodeAt 3 3 Absent (NodeAt 2 2 Absent (NodeAt 1 1 Absent Absent))) Absent"

text \<open>
  The state after \<^verbatim>\<open>push(5); push(3)\<close> on queue 0 and \<^verbatim>\<open>push(4); push(2)\<close> on queue 1,
  and the graphs of the two queues.
\<close>

definition two_queues :: "int state" where
  "two_queues = \<lparr>
     nodes = [0 \<mapsto> \<lparr>val = 5, child = Some 1, sibling = None\<rparr>,
              1 \<mapsto> \<lparr>val = 3, child = None, sibling = None\<rparr>,
              2 \<mapsto> \<lparr>val = 4, child = Some 3, sibling = None\<rparr>,
              3 \<mapsto> \<lparr>val = 2, child = None, sibling = None\<rparr>],
     next_addr = 4,
     queues = (\<lambda>_. \<lparr>root = None, raw_size = 0\<rparr>)
        (0 := \<lparr>root = Some 0, raw_size = 2\<rparr>, 1 := \<lparr>root = Some 2, raw_size = 2\<rparr>),
     calls = [(5, 3), (4, 2)]\<rparr>"

definition first_tree :: "int ntree" where
  "first_tree = NodeAt 0 5 (NodeAt 1 3 Absent Absent) Absent"

definition second_tree :: "int ntree" where
  "second_tree = NodeAt 2 4 (NodeAt 3 2 Absent Absent) Absent"

section \<open>Properties\<close>

lemmas prims = ret_def throw_def bnd_def catch_all_def catch_runtime_error_def read_node_def
  set_child_def set_sibling_def new_node_def delete_node_def call_Compare_def get_root_def
  set_root_def get_raw_size_def set_raw_size_def

lemma stored_frame:
  "stored h t \<Longrightarrow> (\<And>a. a \<in> set (addrs t) \<Longrightarrow> h' a = h a) \<Longrightarrow> stored h' t"
  by (induction t) auto

lemma root_ptr_None [simp]: "(root_ptr t = None) = (t = Absent)"
  by (cases t) auto

lemma root_ptr_Some: "root_ptr t = Some a \<Longrightarrow> \<exists>v c sb. t = NodeAt a v c sb"
  by (cases t) auto

lemma stored_tree_of: "stored h t \<Longrightarrow> depth t < k \<Longrightarrow> tree_of k h (root_ptr t) = Some t"
proof (induction t arbitrary: k)
  case Absent
  then show ?case by (cases k) auto
next
  case (NodeAt a v c sb)
  then obtain k' where k: "k = Suc k'" by (cases k) auto
  with NodeAt show ?case by auto
qed

lemma bnd_eq_ok: "m s = Some (Ok x, s') \<Longrightarrow> bnd m f s = f x s'"
  by (simp add: bnd_def)

lemma bnd_eq_throw: "m s = Some (Throw e, s') \<Longrightarrow> bnd m f s = Some (Throw e, s')"
  by (simp add: bnd_def)

lemma bnd_eq_none: "m s = None \<Longrightarrow> bnd m f s = None"
  by (simp add: bnd_def)

lemma bnd_ret: "bnd (ret x) f s = f x s"
  by (simp add: bnd_def ret_def)

lemma bnd_throw: "bnd (throw e) f s = Some (Throw e, s)"
  by (simp add: bnd_def throw_def)

lemma bnd_assoc: "bnd (bnd m g) f = bnd m (\<lambda>x. bnd (g x) f)"
  by (auto simp: bnd_def fun_eq_iff split: option.splits outcome.splits)

lemma bnd_if: "bnd (if c then m1 else m2) f s = (if c then bnd m1 f s else bnd m2 f s)"
  by simp

lemma bnd_read_node: "bnd (read_node p) f s = (case p of
       None \<Rightarrow> Some (Throw undefined_behaviour, s)
     | Some a \<Rightarrow> (case nodes s a of
         None \<Rightarrow> Some (Throw undefined_behaviour, s)
       | Some n \<Rightarrow> f n s))"
  by (simp add: bnd_def read_node_def split: option.splits)

lemma bnd_set_child: "bnd (set_child p c) f s = (case p of
       None \<Rightarrow> Some (Throw undefined_behaviour, s)
     | Some a \<Rightarrow> (case nodes s a of
         None \<Rightarrow> Some (Throw undefined_behaviour, s)
       | Some n \<Rightarrow> f () (s\<lparr>nodes := (nodes s)(a \<mapsto> n\<lparr>child := c\<rparr>)\<rparr>)))"
  by (simp add: bnd_def set_child_def split: option.splits)

lemma bnd_set_sibling: "bnd (set_sibling p c) f s = (case p of
       None \<Rightarrow> Some (Throw undefined_behaviour, s)
     | Some a \<Rightarrow> (case nodes s a of
         None \<Rightarrow> Some (Throw undefined_behaviour, s)
       | Some n \<Rightarrow> f () (s\<lparr>nodes := (nodes s)(a \<mapsto> n\<lparr>sibling := c\<rparr>)\<rparr>)))"
  by (simp add: bnd_def set_sibling_def split: option.splits)

lemma bnd_new_node: "bnd (new_node v c sb) f s = f (Some (next_addr s))
     (s\<lparr>nodes := (nodes s)(next_addr s \<mapsto> \<lparr>val = v, child = c, sibling = sb\<rparr>),
        next_addr := Suc (next_addr s)\<rparr>)"
  by (simp add: bnd_def new_node_def)

lemma bnd_delete_node: "bnd (delete_node p) f s = (case p of
       None \<Rightarrow> f () s
     | Some a \<Rightarrow> (case nodes s a of
         None \<Rightarrow> Some (Throw undefined_behaviour, s)
       | Some n \<Rightarrow> f () (s\<lparr>nodes := (nodes s)(a := None)\<rparr>)))"
  by (simp add: bnd_def delete_node_def split: option.splits)

lemma bnd_call_Compare: "bnd (call_Compare cmp x y) f s = (case cmp (calls s) x y of
       Inl e \<Rightarrow> Some (Throw (comparator_threw e), s\<lparr>calls := calls s @ [(x, y)]\<rparr>)
     | Inr b \<Rightarrow> f b (s\<lparr>calls := calls s @ [(x, y)]\<rparr>))"
  by (simp add: bnd_def call_Compare_def split: sum.splits)

lemma bnd_get_root: "bnd (get_root q) f s = f (root (queues s q)) s"
  by (simp add: bnd_def get_root_def)

lemma bnd_set_root: "bnd (set_root q p) f s =
     f () (s\<lparr>queues := (queues s)(q := (queues s q)\<lparr>root := p\<rparr>)\<rparr>)"
  by (simp add: bnd_def set_root_def)

lemma bnd_get_raw_size: "bnd (get_raw_size q) f s = f (raw_size (queues s q)) s"
  by (simp add: bnd_def get_raw_size_def)

lemma bnd_set_raw_size: "bnd (set_raw_size q n) f s =
     f () (s\<lparr>queues := (queues s)(q := (queues s q)\<lparr>raw_size := n\<rparr>)\<rparr>)"
  by (simp add: bnd_def set_raw_size_def)

lemma bnd_default_ctor: "bnd (default_ctor q) f s =
     f () (s\<lparr>queues := (queues s)(q := \<lparr>root = None, raw_size = 0\<rparr>)\<rparr>)"
  by (simp add: bnd_def default_ctor_def)

lemmas bnd_simps = bnd_ret bnd_throw bnd_assoc bnd_if bnd_read_node bnd_set_child bnd_set_sibling
  bnd_new_node bnd_delete_node bnd_call_Compare bnd_get_root bnd_set_root bnd_get_raw_size
  bnd_set_raw_size bnd_default_ctor

lemmas end_simps = ret_def throw_def read_node_def set_child_def set_sibling_def new_node_def
  delete_node_def call_Compare_def get_root_def set_root_def get_raw_size_def set_raw_size_def
  default_ctor_def

text \<open>meld on two allocated nodes\<close>

lemma meld_nodes_null_left: "meld_nodes cmp None p s = Some (Ok p, s)"
  by (simp add: meld_nodes_def ret_def)

lemma meld_nodes_null_right: "meld_nodes cmp p None s = Some (Ok p, s)"
  by (cases p) (simp_all add: meld_nodes_def ret_def)

lemma meld_nodes_throw:
  "nodes s a = Some na \<Longrightarrow> nodes s b = Some nb \<Longrightarrow> cmp (calls s) (val na) (val nb) = Inl e \<Longrightarrow>
   meld_nodes cmp (Some a) (Some b) s =
     Some (Throw runtime_error, s\<lparr>calls := calls s @ [(val na, val nb)]\<rparr>)"
  by (simp add: meld_nodes_def prims)

lemma meld_nodes_less:
  "nodes s a = Some na \<Longrightarrow> nodes s b = Some nb \<Longrightarrow> a \<noteq> b \<Longrightarrow>
   cmp (calls s) (val na) (val nb) = Inr True \<Longrightarrow>
   meld_nodes cmp (Some a) (Some b) s =
     Some (Ok (Some b), s\<lparr>calls := calls s @ [(val na, val nb)],
        nodes := (nodes s)(a \<mapsto> na\<lparr>sibling := child nb\<rparr>, b \<mapsto> nb\<lparr>child := Some a\<rparr>)\<rparr>)"
  by (simp add: meld_nodes_def prims)

lemma meld_nodes_not_less:
  "nodes s a = Some na \<Longrightarrow> nodes s b = Some nb \<Longrightarrow> a \<noteq> b \<Longrightarrow>
   cmp (calls s) (val na) (val nb) = Inr False \<Longrightarrow>
   meld_nodes cmp (Some a) (Some b) s =
     Some (Ok (Some a), s\<lparr>calls := calls s @ [(val na, val nb)],
        nodes := (nodes s)(b \<mapsto> nb\<lparr>sibling := child na\<rparr>, a \<mapsto> na\<lparr>child := Some b\<rparr>)\<rparr>)"
  by (simp add: meld_nodes_def prims)

lemma same_except_refl [simp]: "same_except A s s"
  by (simp add: same_except_def)

lemma same_except_calls [simp]: "same_except A s (s\<lparr>calls := l\<rparr>)"
  by (simp add: same_except_def)

lemma same_except_trans:
  "same_except A s s1 \<Longrightarrow> same_except B s1 s2 \<Longrightarrow> A \<union> B \<subseteq> C \<Longrightarrow> same_except C s s2"
  unfolding same_except_def by (metis Un_iff subsetD)

lemma stored_fun_upd [simp]: "a \<notin> set (addrs t) \<Longrightarrow> stored (h(a := x)) t = stored h t"
  by (induction t) auto

lemma same_except_mono: "same_except A s s' \<Longrightarrow> A \<subseteq> B \<Longrightarrow> same_except B s s'"
  by (auto simp: same_except_def)

lemma stored_same_except:
  "stored (nodes s) t \<Longrightarrow> same_except A s s' \<Longrightarrow> A \<inter> set (addrs t) = {} \<Longrightarrow> stored (nodes s') t"
  by (rule stored_frame[where h = "nodes s"]) (auto simp: same_except_def)

lemma meld_nodes_fail:
  assumes "stored (nodes s) ta" "stored (nodes s) tb" "meld_answer cmp (calls s) ta tb = Inl e"
  shows "meld_nodes cmp (root_ptr ta) (root_ptr tb) s =
           Some (Throw runtime_error, s\<lparr>calls := calls s @ meld_calls ta tb\<rparr>)"
  using assms
  by (cases ta; cases tb) (simp_all add: meld_answer_def meld_calls_def meld_nodes_throw)

lemma meld_nodes_ok:
  assumes "stored (nodes s) ta" "stored (nodes s) tb" "distinct (addrs ta @ addrs tb)"
    and "meld_answer cmp (calls s) ta tb = Inr r"
  shows "\<exists>s'. meld_nodes cmp (root_ptr ta) (root_ptr tb) s =
                 Some (Ok (root_ptr (meld_t (\<lambda>_ _. r) ta tb)), s')
             \<and> stored (nodes s') (meld_t (\<lambda>_ _. r) ta tb)
             \<and> same_except (root_addr ta \<union> root_addr tb) s s'
             \<and> calls s' = calls s @ meld_calls ta tb"
proof (cases ta)
  case Absent
  with assms show ?thesis
    by (simp add: meld_nodes_null_left meld_calls_def)
next
  case A: (NodeAt a va ca sa)
  show ?thesis
  proof (cases tb)
    case Absent
    with A assms show ?thesis
      by (simp add: meld_nodes_null_right meld_calls_def)
  next
    case B: (NodeAt b vb cb sb)
    let ?na = "\<lparr>val = va, child = root_ptr ca, sibling = root_ptr sa\<rparr>"
    let ?nb = "\<lparr>val = vb, child = root_ptr cb, sibling = root_ptr sb\<rparr>"
    from assms A B have na: "nodes s a = Some ?na" and nb: "nodes s b = Some ?nb"
      and ab: "a \<noteq> b" and ans: "cmp (calls s) va vb = Inr r" 
      by (auto simp: meld_answer_def)
    show ?thesis
    proof (cases r)
      case True
      let ?s' = "s\<lparr>calls := calls s @ [(va, vb)],
        nodes := (nodes s)(a \<mapsto> ?na\<lparr>sibling := child ?nb\<rparr>, b \<mapsto> ?nb\<lparr>child := Some a\<rparr>)\<rparr>"
      have run: "meld_nodes cmp (Some a) (Some b) s = Some (Ok (Some b), ?s')"
        using meld_nodes_less[OF na nb ab] ans True by simp
      have fr: "same_except {a, b} s ?s'" by (simp add: same_except_def)
      have "stored (nodes ?s') ca" "stored (nodes ?s') cb" "stored (nodes ?s') sb"
        using assms A B by auto
      then have "stored (nodes ?s') (NodeAt b vb (NodeAt a va ca cb) sb)"
        using ab by simp
      with run fr True A B show ?thesis by (simp add: meld_calls_def insert_commute)
    next
      case False
      let ?s' = "s\<lparr>calls := calls s @ [(va, vb)],
        nodes := (nodes s)(b \<mapsto> ?nb\<lparr>sibling := child ?na\<rparr>, a \<mapsto> ?na\<lparr>child := Some b\<rparr>)\<rparr>"
      have run: "meld_nodes cmp (Some a) (Some b) s = Some (Ok (Some a), ?s')"
        using meld_nodes_not_less[OF na nb ab] ans False by simp
      have fr: "same_except {a, b} s ?s'" by (simp add: same_except_def)
      have "stored (nodes ?s') ca" "stored (nodes ?s') cb" "stored (nodes ?s') sa"
        using assms A B by auto
      then have "stored (nodes ?s') (NodeAt a va (NodeAt b vb cb ca) sa)"
        using ab by simp
      with run fr False A B show ?thesis by (simp add: meld_calls_def insert_commute)
    qed
  qed
qed

lemma meld_t_agrees:
  "cmp_agrees cmp lt \<Longrightarrow> meld_answer cmp log ta tb = Inr r \<Longrightarrow>
   meld_t (\<lambda>_ _. r) ta tb = meld_t lt ta tb"
  by (cases ta; cases tb) (auto simp: cmp_agrees_def meld_answer_def)

lemma meld_t_addrs:
  "sibling_free ta \<Longrightarrow> sibling_free tb \<Longrightarrow>
   set (addrs (meld_t f ta tb)) = set (addrs ta) \<union> set (addrs tb)"
  by (cases ta; cases tb) auto

lemma meld_t_distinct:
  "sibling_free ta \<Longrightarrow> sibling_free tb \<Longrightarrow> distinct (addrs ta @ addrs tb) \<Longrightarrow>
   distinct (addrs (meld_t f ta tb))"
  by (cases ta; cases tb) auto

lemma meld_t_elems:
  "sibling_free ta \<Longrightarrow> sibling_free tb \<Longrightarrow> elems (meld_t f ta tb) = elems ta + elems tb"
  by (cases ta; cases tb) auto

lemma meld_t_sibling_free:
  "sibling_free ta \<Longrightarrow> sibling_free tb \<Longrightarrow> sibling_free (meld_t f ta tb)"
  by (cases ta; cases tb) auto

lemma meld_t_Absent: "(meld_t f ta tb = Absent) = (ta = Absent \<and> tb = Absent)"
  by (cases ta; cases tb) auto

lemma root_addr_subset: "root_addr t \<subseteq> set (addrs t)"
  by (cases t) auto

lemma merge_siblings_spec:
  assumes "stored (nodes s) t" "distinct (addrs t)" "depth t < k"
  shows "\<exists>r s'. merge_siblings cmp k (root_ptr t) s = Some (r, s')
     \<and> same_except (set (addrs t)) s s'
     \<and> (r = Throw runtime_error \<or>
        (\<exists>t'. r = Ok (root_ptr t') \<and> stored (nodes s') t' \<and> set (addrs t') = set (addrs t)
            \<and> distinct (addrs t') \<and> elems t' = elems t \<and> sibling_free t'
            \<and> (t' = Absent) = (t = Absent)
            \<and> (cmp_agrees cmp lt \<longrightarrow> t' = merge_pairs lt t)))"
  using assms
proof (induction lt t arbitrary: k s rule: merge_pairs.induct)
  case (1 lt)
  then obtain k' where "k = Suc k'" by (cases k) auto
  then show ?case by (auto simp: ret_def intro!: exI[of _ Absent])
next
  case (2 lt a v c)
  then obtain k' where k: "k = Suc k'" by (cases k) auto
  have "merge_siblings cmp k (Some a) s = Some (Ok (Some a), s)"
    using 2 k by (simp add: prims)
  with 2 show ?case
    by (auto intro!: exI[of _ "NodeAt a v c Absent"])
next
  case (3 lt a va ca b vb cb rest)
  let ?t = "NodeAt a va ca (NodeAt b vb cb rest)"
  let ?A = "NodeAt a va ca Absent" and ?B = "NodeAt b vb cb Absent"
  from 3 obtain k' where k: "k = Suc k'" by (cases k) auto
  from "3.prems" have na: "nodes s a = Some \<lparr>val = va, child = root_ptr ca, sibling = Some b\<rparr>"
    and nb: "nodes s b = Some \<lparr>val = vb, child = root_ptr cb, sibling = root_ptr rest\<rparr>"
    and ab: "a \<noteq> b" and st: "stored (nodes s) ca" "stored (nodes s) cb" "stored (nodes s) rest"
    and dis: "a \<notin> set (addrs ca)" "a \<notin> set (addrs cb)" "a \<notin> set (addrs rest)"
      "b \<notin> set (addrs ca)" "b \<notin> set (addrs cb)" "b \<notin> set (addrs rest)"
      "distinct (addrs ca)" "distinct (addrs cb)" "distinct (addrs rest)"
      "set (addrs ca) \<inter> set (addrs cb) = {}" "set (addrs ca) \<inter> set (addrs rest) = {}"
      "set (addrs cb) \<inter> set (addrs rest) = {}"
    and dk: "depth rest < k'"
    using k by auto
  define s2 where "s2 = s\<lparr>nodes := (nodes s)(a \<mapsto> \<lparr>val = va, child = root_ptr ca, sibling = None\<rparr>,
     b \<mapsto> \<lparr>val = vb, child = root_ptr cb, sibling = None\<rparr>)\<rparr>"
  have eq: "merge_siblings cmp k (root_ptr ?t) s =
      bnd (meld_nodes cmp (root_ptr ?A) (root_ptr ?B)) (\<lambda>x.
      bnd (merge_siblings cmp k' (root_ptr rest)) (\<lambda>y. meld_nodes cmp x y)) s2"
    using na nb ab by (simp add: k bnd_simps s2_def)
  have fr2: "same_except {a, b} s s2" by (simp add: s2_def same_except_def)
  have c2: "calls s2 = calls s" by (simp add: s2_def)
  have stA: "stored (nodes s2) ?A" and stB: "stored (nodes s2) ?B"
    and st_rest2: "stored (nodes s2) rest"
    using st dis ab by (auto simp: s2_def)
  have dAB: "distinct (addrs ?A @ addrs ?B)" using dis ab by auto
  show ?case
  proof (cases "meld_answer cmp (calls s2) ?A ?B")
    case (Inl e)
    from meld_nodes_fail[OF stA stB Inl]
    have "merge_siblings cmp k (root_ptr ?t) s =
        Some (Throw runtime_error, s2\<lparr>calls := calls s2 @ meld_calls ?A ?B\<rparr>)"
      using eq by (simp add: bnd_def)
    moreover have "same_except (set (addrs ?t)) s (s2\<lparr>calls := calls s2 @ meld_calls ?A ?B\<rparr>)"
      using fr2 by (auto simp: same_except_def)
    ultimately show ?thesis by blast
  next
    case (Inr r1)
    define m1 where "m1 = meld_t (\<lambda>_ _. r1) ?A ?B"
    from meld_nodes_ok[OF stA stB dAB Inr] obtain s3 where
      run3: "meld_nodes cmp (root_ptr ?A) (root_ptr ?B) s2 = Some (Ok (root_ptr m1), s3)"
      and st3: "stored (nodes s3) m1" and fr3: "same_except (root_addr ?A \<union> root_addr ?B) s2 s3"
      unfolding m1_def by blast
    have fr3': "same_except {a, b} s s3"
      by (rule same_except_trans[OF fr2 fr3]) auto
    have "{a, b} \<inter> set (addrs rest) = {}" using dis by auto
    from stored_same_except[OF st(3) fr3' this] have st_rest3: "stored (nodes s3) rest" .
    from "3.IH"[OF st_rest3 dis(9) dk] obtain r2 s4 where
      run4: "merge_siblings cmp k' (root_ptr rest) s3 = Some (r2, s4)"
      and fr4: "same_except (set (addrs rest)) s3 s4"
      and res4: "r2 = Throw runtime_error \<or>
        (\<exists>t'. r2 = Ok (root_ptr t') \<and> stored (nodes s4) t' \<and> set (addrs t') = set (addrs rest)
            \<and> distinct (addrs t') \<and> elems t' = elems rest \<and> sibling_free t'
            \<and> (t' = Absent) = (rest = Absent)
            \<and> (cmp_agrees cmp lt \<longrightarrow> t' = merge_pairs lt rest))"
      by blast
    have fr4': "same_except (set (addrs ?t)) s s4"
      by (rule same_except_trans[OF fr3' fr4]) auto
    have m1_addrs: "set (addrs m1) = {a, b} \<union> set (addrs ca) \<union> set (addrs cb)"
      unfolding m1_def by (auto simp: meld_t_addrs)
    have sf1: "sibling_free m1" unfolding m1_def by (simp add: meld_t_sibling_free)
    have d1: "distinct (addrs m1)" unfolding m1_def using dAB by (intro meld_t_distinct) auto
    have e1: "elems m1 = {#va#} + elems ca + ({#vb#} + elems cb)"
      unfolding m1_def by (subst meld_t_elems) auto
    have n1: "m1 \<noteq> Absent" unfolding m1_def by (simp add: meld_t_Absent)
    have "set (addrs rest) \<inter> set (addrs m1) = {}" unfolding m1_addrs using dis by auto
    from stored_same_except[OF st3 fr4 this] have st_m1_4: "stored (nodes s4) m1" .
    from res4 show ?thesis
    proof
      assume "r2 = Throw runtime_error"
      then have "merge_siblings cmp k (root_ptr ?t) s = Some (Throw runtime_error, s4)"
        using eq run3 run4 by (simp add: bnd_def)
      with fr4' show ?thesis by blast
    next
      assume "\<exists>t'. r2 = Ok (root_ptr t') \<and> stored (nodes s4) t' \<and> set (addrs t') = set (addrs rest)
            \<and> distinct (addrs t') \<and> elems t' = elems rest \<and> sibling_free t'
            \<and> (t' = Absent) = (rest = Absent)
            \<and> (cmp_agrees cmp lt \<longrightarrow> t' = merge_pairs lt rest)"
      then obtain t2 where r2: "r2 = Ok (root_ptr t2)" and st_t2: "stored (nodes s4) t2"
        and a2: "set (addrs t2) = set (addrs rest)" and d2: "distinct (addrs t2)"
        and e2: "elems t2 = elems rest" and sf2: "sibling_free t2"
        and ag2: "cmp_agrees cmp lt \<longrightarrow> t2 = merge_pairs lt rest"
        by blast
      have eq5: "merge_siblings cmp k (root_ptr ?t) s = meld_nodes cmp (root_ptr m1) (root_ptr t2) s4"
        using eq run3 run4 r2 by (simp add: bnd_def)
      have d12: "distinct (addrs m1 @ addrs t2)"
        using d1 d2 a2 dis unfolding distinct_append m1_addrs by auto
      show ?thesis
      proof (cases "meld_answer cmp (calls s4) m1 t2")
        case (Inl e)
        from meld_nodes_fail[OF st_m1_4 st_t2 Inl]
        have "merge_siblings cmp k (root_ptr ?t) s =
          Some (Throw runtime_error, s4\<lparr>calls := calls s4 @ meld_calls m1 t2\<rparr>)"
          using eq5 by simp
        moreover have "same_except (set (addrs ?t)) s (s4\<lparr>calls := calls s4 @ meld_calls m1 t2\<rparr>)"
          using fr4' by (auto simp: same_except_def)
        ultimately show ?thesis by blast
      next
        case (Inr r3)
        define t' where "t' = meld_t (\<lambda>_ _. r3) m1 t2"
        from meld_nodes_ok[OF st_m1_4 st_t2 d12 Inr] obtain s5 where
          run5: "meld_nodes cmp (root_ptr m1) (root_ptr t2) s4 = Some (Ok (root_ptr t'), s5)"
          and st5: "stored (nodes s5) t'" and fr5: "same_except (root_addr m1 \<union> root_addr t2) s4 s5"
          unfolding t'_def by blast
        have sub: "root_addr m1 \<union> root_addr t2 \<subseteq> set (addrs ?t)"
          using root_addr_subset[of m1] root_addr_subset[of t2] a2 unfolding m1_addrs by auto
        have fr5': "same_except (set (addrs ?t)) s s5"
          by (rule same_except_trans[OF fr4' fr5]) (use sub in auto)
        have p1: "set (addrs t') = set (addrs ?t)"
          unfolding t'_def using meld_t_addrs[OF sf1 sf2] a2 m1_addrs by auto
        have p2: "distinct (addrs t')" unfolding t'_def using meld_t_distinct[OF sf1 sf2 d12] .
        have p3: "elems t' = elems ?t"
          unfolding t'_def using meld_t_elems[OF sf1 sf2] e2 e1 by simp
        have p4: "sibling_free t'" unfolding t'_def using meld_t_sibling_free[OF sf1 sf2] .
        have p5: "(t' = Absent) = (?t = Absent)" unfolding t'_def using n1 by (simp add: meld_t_Absent)
        have p6: "cmp_agrees cmp lt \<longrightarrow> t' = merge_pairs lt ?t"
        proof
          assume ag: "cmp_agrees cmp lt"
          have "m1 = meld_t lt ?A ?B"
            unfolding m1_def using meld_t_agrees[OF ag \<open>meld_answer cmp (calls s2) ?A ?B = Inr r1\<close>] .
          moreover have "t' = meld_t lt m1 t2" unfolding t'_def using meld_t_agrees[OF ag Inr] .
          moreover have "t2 = merge_pairs lt rest" using ag ag2 by simp
          ultimately show "t' = merge_pairs lt ?t" by simp
        qed
        have "merge_siblings cmp k (root_ptr ?t) s = Some (Ok (root_ptr t'), s5)"
          using eq5 run5 by simp
        with fr5' st5 p1 p2 p3 p4 p5 p6 show ?thesis by blast
      qed
    qed
  qed
qed

lemma addrs_relocate: "addrs (relocate n t) = [n..<n + length (addrs t)]"
proof (induction t arbitrary: n)
  case Absent
  then show ?case by simp
next
  case (NodeAt a v c sb)
  have "[n..<n + Suc (length (addrs c) + length (addrs sb))] =
      n # [Suc n..<Suc n + length (addrs c)] @
        [Suc n + length (addrs c)..<Suc n + length (addrs c) + length (addrs sb)]"
    using upt_add_eq_append[of "Suc n" "Suc (n + length (addrs c))" "length (addrs sb)"]
    by (simp add: upt_conv_Cons add.assoc del: upt_Suc)
  with NodeAt show ?case by simp
qed

lemma set_addrs_relocate: "set (addrs (relocate n t)) = {n..<n + length (addrs t)}"
  by (simp only: addrs_relocate set_upt)

lemma distinct_addrs_relocate: "distinct (addrs (relocate n t))"
  by (simp only: addrs_relocate distinct_upt)

lemma root_ptr_relocate: "root_ptr (relocate n t) = (if t = Absent then None else Some n)"
  by (cases t) auto

lemma elems_relocate: "elems (relocate n t) = elems t"
  by (induction t arbitrary: n) auto

lemma depth_relocate: "depth (relocate n t) = depth t"
  by (induction t arbitrary: n) auto

lemma recursive_dup_spec:
  assumes "stored (nodes s) t" "t \<noteq> Absent" "set (addrs t) \<subseteq> {..<next_addr s}" "depth t \<le> k"
  shows "\<exists>s'. (recursive_dup k (root_ptr t) :: ('a, 'e, ptr) prog) s =
         Some (Ok (Some (next_addr s)), s')
     \<and> stored (nodes s') (relocate (next_addr s) t)
     \<and> next_addr s' = next_addr s + length (addrs t)
     \<and> (\<forall>x. x < next_addr s \<or> next_addr s' \<le> x \<longrightarrow> nodes s' x = nodes s x)
     \<and> queues s' = queues s \<and> calls s' = calls s"
  using assms
proof (induction t arbitrary: k s)
  case Absent
  then show ?case by simp
next
  case (NodeAt a v c sb)
  from NodeAt.prems obtain k' where k: "k = Suc k'" by (cases k) auto
  define n where "n = next_addr s"
  define s1 where "s1 = s\<lparr>nodes := (nodes s)(n \<mapsto> \<lparr>val = v, child = None, sibling = None\<rparr>),
      next_addr := Suc n\<rparr>"
  from NodeAt.prems have na: "nodes s a = Some \<lparr>val = v, child = root_ptr c, sibling = root_ptr sb\<rparr>"
    and a_lt: "a < n" and stc: "stored (nodes s) c" and stsb: "stored (nodes s) sb"
    and c_lt: "set (addrs c) \<subseteq> {..<n}" and sb_lt: "set (addrs sb) \<subseteq> {..<n}"
    and dc: "depth c \<le> k'" and dsb: "depth sb \<le> k'"
    by (auto simp: n_def k)
  define Pc :: "('a, 'e, unit) prog" where "Pc = (if root_ptr c \<noteq> None
          then bnd (recursive_dup k' (root_ptr c)) (\<lambda>x. set_child (Some n) x) else ret ())"
  define Ps :: "('a, 'e, unit) prog" where "Ps = (if root_ptr sb \<noteq> None
          then bnd (recursive_dup k' (root_ptr sb)) (\<lambda>x. set_sibling (Some n) x) else ret ())"
  \<comment> \<open>the copy of the child's graph\<close>
  have child_part: "\<exists>s3. Pc s1 = Some (Ok (), s3)
      \<and> nodes s3 n = Some \<lparr>val = v, child = root_ptr (relocate (Suc n) c), sibling = None\<rparr>
      \<and> stored (nodes s3) (relocate (Suc n) c)
      \<and> next_addr s3 = Suc n + length (addrs c)
      \<and> (\<forall>x. x < n \<or> next_addr s3 \<le> x \<longrightarrow> nodes s3 x = nodes s x)
      \<and> queues s3 = queues s \<and> calls s3 = calls s"
  proof (cases "c = Absent")
    case True
    then show ?thesis by (simp add: Pc_def ret_def s1_def)
  next
    case False
    have "n \<notin> set (addrs c)" using c_lt by auto
    then have "stored (nodes s1) c" using stc by (simp add: s1_def)
    moreover have "set (addrs c) \<subseteq> {..<next_addr s1}" using c_lt by (auto simp: s1_def)
    ultimately obtain s2 where
      run: "(recursive_dup k' (root_ptr c) :: ('a, 'e, ptr) prog) s1 =
          Some (Ok (Some (next_addr s1)), s2)"
      and st2: "stored (nodes s2) (relocate (next_addr s1) c)"
      and nx2: "next_addr s2 = next_addr s1 + length (addrs c)"
      and fr2: "\<forall>x. x < next_addr s1 \<or> next_addr s2 \<le> x \<longrightarrow> nodes s2 x = nodes s1 x"
      and q2: "queues s2 = queues s1" "calls s2 = calls s1"
      using NodeAt.IH(1)[of s1 k'] False dc by blast
    have n2: "nodes s2 n = Some \<lparr>val = v, child = None, sibling = None\<rparr>"
      using fr2 by (simp add: s1_def)
    let ?s3 = "s2\<lparr>nodes := (nodes s2)(n \<mapsto> \<lparr>val = v, child = Some (Suc n), sibling = None\<rparr>)\<rparr>"
    have "Pc s1 = Some (Ok (), ?s3)"
      using False run n2 by (simp add: Pc_def bnd_def set_child_def s1_def)
    moreover have "stored (nodes ?s3) (relocate (Suc n) c)"
      using st2 by (simp add: s1_def set_addrs_relocate)
    moreover have "\<forall>x. x < n \<or> next_addr ?s3 \<le> x \<longrightarrow> nodes ?s3 x = nodes s x"
      using fr2 nx2 by (auto simp: s1_def)
    ultimately show ?thesis
      using False nx2 q2 by (auto simp: root_ptr_relocate s1_def)
  qed
  then obtain s3 where run3: "Pc s1 = Some (Ok (), s3)"
      and n3: "nodes s3 n = Some \<lparr>val = v, child = root_ptr (relocate (Suc n) c), sibling = None\<rparr>"
      and st3: "stored (nodes s3) (relocate (Suc n) c)"
      and nx3: "next_addr s3 = Suc n + length (addrs c)"
      and fr3: "\<forall>x. x < n \<or> next_addr s3 \<le> x \<longrightarrow> nodes s3 x = nodes s x"
      and q3: "queues s3 = queues s" "calls s3 = calls s"
    by blast
  \<comment> \<open>the copy of the sibling's graph\<close>
  have sib_part: "\<exists>s5. Ps s3 = Some (Ok (), s5)
      \<and> nodes s5 n = Some \<lparr>val = v, child = root_ptr (relocate (Suc n) c),
            sibling = root_ptr (relocate (Suc n + length (addrs c)) sb)\<rparr>
      \<and> stored (nodes s5) (relocate (Suc n) c)
      \<and> stored (nodes s5) (relocate (Suc n + length (addrs c)) sb)
      \<and> next_addr s5 = Suc n + length (addrs c) + length (addrs sb)
      \<and> (\<forall>x. x < n \<or> next_addr s5 \<le> x \<longrightarrow> nodes s5 x = nodes s x)
      \<and> queues s5 = queues s \<and> calls s5 = calls s"
  proof (cases "sb = Absent")
    case True
    then show ?thesis using n3 st3 nx3 fr3 q3 by (simp add: Ps_def ret_def)
  next
    case False
    have "stored (nodes s3) sb" using stsb sb_lt fr3 by (auto intro: stored_frame)
    moreover have "set (addrs sb) \<subseteq> {..<next_addr s3}" using sb_lt nx3 by auto
    ultimately obtain s4 where
      run: "(recursive_dup k' (root_ptr sb) :: ('a, 'e, ptr) prog) s3 =
          Some (Ok (Some (next_addr s3)), s4)"
      and st4: "stored (nodes s4) (relocate (next_addr s3) sb)"
      and nx4: "next_addr s4 = next_addr s3 + length (addrs sb)"
      and fr4: "\<forall>x. x < next_addr s3 \<or> next_addr s4 \<le> x \<longrightarrow> nodes s4 x = nodes s3 x"
      and q4: "queues s4 = queues s3" "calls s4 = calls s3"
      using NodeAt.IH(2)[of s3 k'] False dsb by blast
    have n4: "nodes s4 n = Some \<lparr>val = v, child = root_ptr (relocate (Suc n) c), sibling = None\<rparr>"
      using fr4 n3 nx3 by simp
    let ?s5 = "s4\<lparr>nodes := (nodes s4)(n \<mapsto> \<lparr>val = v, child = root_ptr (relocate (Suc n) c),
        sibling = Some (next_addr s3)\<rparr>)\<rparr>"
    have "Ps s3 = Some (Ok (), ?s5)"
      using False run n4 by (simp add: Ps_def bnd_def set_sibling_def)
    moreover have "stored (nodes ?s5) (relocate (Suc n + length (addrs c)) sb)"
      using st4 nx3 by (simp add: set_addrs_relocate)
    moreover have "stored (nodes s4) (relocate (Suc n) c)"
      using fr4 nx3 by (auto intro!: stored_frame[OF st3] simp: set_addrs_relocate)
    then have "stored (nodes ?s5) (relocate (Suc n) c)"
      by (simp add: set_addrs_relocate)
    moreover have "\<forall>x. x < n \<or> next_addr ?s5 \<le> x \<longrightarrow> nodes ?s5 x = nodes s x"
      using fr4 fr3 nx4 nx3 by auto
    ultimately show ?thesis
      using False nx4 nx3 q4 q3 by (auto simp: root_ptr_relocate)
  qed
  then obtain s5 where run5: "Ps s3 = Some (Ok (), s5)"
      and n5: "nodes s5 n = Some \<lparr>val = v, child = root_ptr (relocate (Suc n) c),
            sibling = root_ptr (relocate (Suc n + length (addrs c)) sb)\<rparr>"
      and st5: "stored (nodes s5) (relocate (Suc n) c)"
        "stored (nodes s5) (relocate (Suc n + length (addrs c)) sb)"
      and nx5: "next_addr s5 = Suc n + length (addrs c) + length (addrs sb)"
      and fr5: "\<forall>x. x < n \<or> next_addr s5 \<le> x \<longrightarrow> nodes s5 x = nodes s x"
      and q5: "queues s5 = queues s" "calls s5 = calls s"
    by blast
  have a1: "nodes s1 a = Some \<lparr>val = v, child = root_ptr c, sibling = root_ptr sb\<rparr>"
    using na a_lt by (simp add: s1_def)
  have a3: "nodes s3 a = Some \<lparr>val = v, child = root_ptr c, sibling = root_ptr sb\<rparr>"
    using na a_lt fr3 by simp
  have "(recursive_dup k (Some a) :: ('a, 'e, ptr) prog) s =
      bnd Pc (\<lambda>_. bnd (read_node (Some a)) (\<lambda>n2.
        bnd (if sibling n2 \<noteq> None
          then bnd (recursive_dup k' (sibling n2)) (\<lambda>x. set_sibling (Some n) x) else ret ())
         (\<lambda>_. ret (Some n)))) s1"
    unfolding k recursive_dup.simps Pc_def s1_def n_def
    using na a_lt[unfolded n_def] by (simp add: bnd_read_node bnd_new_node)
  also have "\<dots> = bnd Ps (\<lambda>_. ret (Some n)) s3"
    using run3 a3 by (simp add: bnd_def[of Pc] bnd_read_node Ps_def)
  also have "\<dots> = Some (Ok (Some n), s5)"
    using run5 by (simp add: bnd_def ret_def)
  finally have "(recursive_dup k (Some a) :: ('a, 'e, ptr) prog) s = Some (Ok (Some n), s5)" .
  then show ?case
    using n5 st5 nx5 fr5 q5 by (simp add: n_def)
qed

lemma del_part:
  assumes r: "u \<noteq> Absent \<Longrightarrow> (recursive_del k (root_ptr u) :: ('a, 'e, unit) prog) s =
        Some (Ok (), s\<lparr>nodes := nodes s |` (- set (tl (addrs u)))\<rparr>)"
    and st: "stored (nodes s) u" and di: "distinct (addrs u)" and an: "a \<notin> set (addrs u)"
    and na: "nodes s a = Some n" and f: "f n = root_ptr u"
  shows "(if root_ptr u \<noteq> None
          then bnd (recursive_del k (root_ptr u) :: ('a, 'e, unit) prog) (\<lambda>_.
               bnd (read_node (Some a)) (\<lambda>n'. delete_node (f n')))
          else ret ()) s
       = Some (Ok (), s\<lparr>nodes := nodes s |` (- set (addrs u))\<rparr>)"
proof (cases u)
  case Absent
  then show ?thesis by (simp add: ret_def restrict_map_def)
next
  case (NodeAt b vb cb sbb)
  define s1 where "s1 = s\<lparr>nodes := nodes s |` (- set (tl (addrs u)))\<rparr>"
  have run: "(recursive_del k (Some b) :: ('a, 'e, unit) prog) s = Some (Ok (), s1)"
    using r NodeAt by (simp add: s1_def)
  have a1: "nodes s1 a = Some n" using na an NodeAt by (simp add: s1_def restrict_map_def)
  have b1: "nodes s1 b \<noteq> None" using st di NodeAt by (simp add: s1_def restrict_map_def)
  have "(nodes s1)(b := None) = nodes s |` (- set (addrs u))"
    using NodeAt by (auto simp: fun_eq_iff s1_def restrict_map_def)
  then show ?thesis
    using a1 b1 f NodeAt
    by (auto simp add: bnd_eq_ok[of "recursive_del k (Some b)" s, OF run] bnd_read_node
        delete_node_def s1_def)
qed

lemma recursive_del_spec:
  assumes "stored (nodes s) t" "distinct (addrs t)" "depth t \<le> k" "t \<noteq> Absent"
  shows "(recursive_del k (root_ptr t) :: ('a, 'e, unit) prog) s =
           Some (Ok (), s\<lparr>nodes := nodes s |` (- set (tl (addrs t)))\<rparr>)"
  using assms
proof (induction t arbitrary: k s)
  case Absent
  then show ?case by simp
next
  case (NodeAt a v c sb)
  from NodeAt.prems obtain k' where k: "k = Suc k'" by (cases k) auto
  from NodeAt.prems have na: "nodes s a = Some \<lparr>val = v, child = root_ptr c, sibling = root_ptr sb\<rparr>"
    and stc: "stored (nodes s) c" and stsb: "stored (nodes s) sb"
    and dis: "a \<notin> set (addrs c)" "a \<notin> set (addrs sb)" "distinct (addrs c)" "distinct (addrs sb)"
       "set (addrs c) \<inter> set (addrs sb) = {}"
    and dc: "depth c \<le> k'" and dsb: "depth sb \<le> k'"
    by (auto simp: k)
  define D :: "('a pq_node \<Rightarrow> ptr) \<Rightarrow> ptr \<Rightarrow> ('a, 'e, unit) prog" where
    "D = (\<lambda>f p. if p \<noteq> None
          then bnd (recursive_del k' p) (\<lambda>_. bnd (read_node (Some a)) (\<lambda>n'. delete_node (f n')))
          else ret ())"
  define s2 where "s2 = s\<lparr>nodes := nodes s |` (- set (addrs c))\<rparr>"
  have c_part: "D child (root_ptr c) s = Some (Ok (), s2)"
    unfolding D_def s2_def
    by (rule del_part[OF NodeAt.IH(1)[OF stc dis(3) dc] stc dis(3) dis(1) na]) simp_all
  have a2: "nodes s2 a = Some \<lparr>val = v, child = root_ptr c, sibling = root_ptr sb\<rparr>"
    using na dis by (simp add: s2_def restrict_map_def)
  have stsb2: "stored (nodes s2) sb"
    using dis by (auto intro!: stored_frame[OF stsb] simp: s2_def restrict_map_def)
  have sb_part: "D sibling (root_ptr sb) s2 = Some (Ok (), s2\<lparr>nodes := nodes s2 |` (- set (addrs sb))\<rparr>)"
    unfolding D_def
    by (rule del_part[OF NodeAt.IH(2)[OF stsb2 dis(4) dsb] stsb2 dis(4) dis(2) a2]) simp_all
  have "(recursive_del k (Some a) :: ('a, 'e, unit) prog) s =
      bnd (D child (root_ptr c)) (\<lambda>_. bnd (read_node (Some a)) (\<lambda>n1. D sibling (sibling n1))) s"
    unfolding k recursive_del.simps D_def using na by (simp add: bnd_read_node)
  also have "\<dots> = D sibling (root_ptr sb) s2"
    using a2 by (simp add: bnd_eq_ok[of "D child (root_ptr c)" s, OF c_part] bnd_read_node)
  also note sb_part
  also have "nodes s2 |` (- set (addrs sb)) = nodes s |` (- set (tl (addrs (NodeAt a v c sb))))"
    by (auto simp: fun_eq_iff s2_def restrict_map_def)
  finally show ?case by (simp add: s2_def)
qed

lemma delete_subgraph_spec:
  assumes "stored (nodes s) t" "distinct (addrs t)" "depth t \<le> k"
  shows "(if root_ptr t \<noteq> None
          then bnd (recursive_del k (root_ptr t) :: ('a, 'e, unit) prog) (\<lambda>_. delete_node (root_ptr t))
          else ret ()) s
       = Some (Ok (), s\<lparr>nodes := nodes s |` (- set (addrs t))\<rparr>)"
proof (cases t)
  case Absent
  then show ?thesis by (simp add: ret_def restrict_map_def)
next
  case (NodeAt a v c sb)
  define s1 where "s1 = s\<lparr>nodes := nodes s |` (- set (tl (addrs t)))\<rparr>"
  have run: "(recursive_del k (Some a) :: ('a, 'e, unit) prog) s = Some (Ok (), s1)"
    using recursive_del_spec[OF assms] NodeAt by (simp add: s1_def)
  have a1: "nodes s1 a \<noteq> None" using assms(1,2) NodeAt by (simp add: s1_def restrict_map_def)
  have "(nodes s1)(a := None) = nodes s |` (- set (addrs t))"
    using NodeAt by (auto simp: fun_eq_iff s1_def restrict_map_def)
  then show ?thesis
    using a1 NodeAt
    by (auto simp add: bnd_eq_ok[of "recursive_del k (Some a)" s, OF run] delete_node_def s1_def)
qed

lemma compare_siblings_loop_pure:
  "compare_siblings_loop cmp k p s = Some (r, s') \<Longrightarrow>
   nodes s' = nodes s \<and> queues s' = queues s \<and> next_addr s' = next_addr s
   \<and> (r = Ok () \<or> r = Throw undefined_behaviour \<or> (\<exists>e. r = Throw (comparator_threw e)))"
proof (induction k arbitrary: p s)
  case 0
  then show ?case by simp
next
  case (Suc k)
  show ?case
  proof (cases p)
    case None
    with Suc.prems show ?thesis by (simp add: bnd_read_node)
  next
    case (Some a)
    show ?thesis
    proof (cases "nodes s a")
      case None
      with Suc.prems Some show ?thesis by (simp add: bnd_read_node)
    next
      case n: (Some n)
      show ?thesis
      proof (cases "sibling n")
        case None
        with Suc.prems Some n show ?thesis by (simp add: bnd_read_node ret_def)
      next
        case sb: (Some b)
        show ?thesis
        proof (cases "nodes s b")
          case None
          with Suc.prems Some n sb show ?thesis by (simp add: bnd_read_node)
        next
          case m: (Some m)
          show ?thesis
          proof (cases "cmp (calls s) (val n) (val m)")
            case (Inl e)
            with Suc.prems Some n sb m show ?thesis
              by (auto simp add: bnd_read_node bnd_call_Compare)
          next
            case (Inr b')
            with Suc.prems Some n sb m
            have "compare_siblings_loop cmp k (Some b) (s\<lparr>calls := calls s @ [(val n, val m)]\<rparr>)
                = Some (r, s')"
              by (simp add: bnd_read_node bnd_call_Compare)
            from Suc.IH[OF this] show ?thesis by simp
          qed
        qed
      qed
    qed
  qed
qed

lemma compare_siblings_pure:
  assumes "compare_siblings cmp k p s = Some (r, s')"
  shows "nodes s' = nodes s \<and> queues s' = queues s \<and> next_addr s' = next_addr s
   \<and> (r = Ok () \<or> r = Throw undefined_behaviour \<or> r = Throw runtime_error)"
proof (cases p)
  case None
  with assms show ?thesis by (simp add: compare_siblings_def catch_all_def ret_def)
next
  case (Some a)
  show ?thesis
  proof (cases "compare_siblings_loop cmp k (Some a) s")
    case None
    with assms Some show ?thesis by (simp add: compare_siblings_def catch_all_def)
  next
    case (Some x)
    obtain r1 s1 where x: "x = (r1, s1)" by (cases x)
    from compare_siblings_loop_pure[OF Some[unfolded x]] assms \<open>p = Some a\<close> Some x
    show ?thesis
      by (auto simp: compare_siblings_def catch_all_def throw_def)
  qed
qed

lemma compare_siblings_loop_total:
  assumes "stored (nodes s) t" "t \<noteq> Absent" "depth t \<le> k"
  shows "\<exists>r s'. compare_siblings_loop cmp k (root_ptr t) s = Some (r, s')
      \<and> (r = Ok () \<or> (\<exists>e. r = Throw (comparator_threw e)))"
  using assms
proof (induction t arbitrary: k s)
  case Absent
  then show ?case by simp
next
  case (NodeAt a v c sb)
  from NodeAt.prems obtain k' where k: "k = Suc k'" by (cases k) auto
  from NodeAt.prems have na: "nodes s a = Some \<lparr>val = v, child = root_ptr c, sibling = root_ptr sb\<rparr>"
    and stsb: "stored (nodes s) sb" and dsb: "depth sb \<le> k'"
    by (auto simp: k)
  show ?case
  proof (cases sb)
    case Absent
    with na show ?thesis by (simp add: k bnd_read_node ret_def)
  next
    case B: (NodeAt b vb cb sbb)
    with stsb have nb: "nodes s b = Some \<lparr>val = vb, child = root_ptr cb, sibling = root_ptr sbb\<rparr>"
      by simp
    show ?thesis
    proof (cases "cmp (calls s) v vb")
      case (Inl e)
      with na nb B show ?thesis by (simp add: k bnd_read_node bnd_call_Compare)
    next
      case (Inr r)
      have "stored (nodes (s\<lparr>calls := calls s @ [(v, vb)]\<rparr>)) sb" using stsb by simp
      from NodeAt.IH(2)[OF this _ dsb] B
      obtain r' s' where "compare_siblings_loop cmp k' (root_ptr sb) (s\<lparr>calls := calls s @ [(v, vb)]\<rparr>)
          = Some (r', s')" "r' = Ok () \<or> (\<exists>e. r' = Throw (comparator_threw e))"
        by blast
      with na nb B Inr show ?thesis by (simp add: k bnd_read_node bnd_call_Compare)
    qed
  qed
qed

lemma compare_siblings_total:
  assumes "stored (nodes s) t" "depth t \<le> k"
  shows "\<exists>r s'. compare_siblings cmp k (root_ptr t) s = Some (r, s')
      \<and> (r = Ok () \<or> r = Throw runtime_error)
      \<and> nodes s' = nodes s \<and> queues s' = queues s \<and> next_addr s' = next_addr s"
proof (cases "t = Absent")
  case True
  then show ?thesis by (simp add: compare_siblings_def catch_all_def ret_def)
next
  case False
  from compare_siblings_loop_total[OF assms(1) False assms(2)]
  obtain r s' where run: "compare_siblings_loop cmp k (root_ptr t) s = Some (r, s')"
      and r: "r = Ok () \<or> (\<exists>e. r = Throw (comparator_threw e))"
    by blast
  from compare_siblings_loop_pure[OF run]
  have pure: "nodes s' = nodes s \<and> queues s' = queues s \<and> next_addr s' = next_addr s" by simp
  from r show ?thesis
  proof
    assume "r = Ok ()"
    with run False pure show ?thesis by (simp add: compare_siblings_def catch_all_def)
  next
    assume "\<exists>e. r = Throw (comparator_threw e)"
    with run False pure show ?thesis by (auto simp: compare_siblings_def catch_all_def throw_def)
  qed
qed

lemma fuel_le_refl: "fuel_le m m"
  by (simp add: fuel_le_def)

lemma fuel_le_none: "fuel_le (\<lambda>s. None) m"
  by (simp add: fuel_le_def)

lemma fuel_le_bnd:
  "fuel_le m m' \<Longrightarrow> (\<And>x. fuel_le (f x) (f' x)) \<Longrightarrow> fuel_le (bnd m f) (bnd m' f')"
  unfolding fuel_le_def bnd_def
  by (auto split: option.splits outcome.splits prod.splits)

lemma fuel_le_if:
  "(c \<Longrightarrow> fuel_le a a') \<Longrightarrow> (\<not> c \<Longrightarrow> fuel_le b b') \<Longrightarrow>
   fuel_le (if c then a else b) (if c then a' else b')"
  by simp

lemma fuel_le_catch_all: "fuel_le m m' \<Longrightarrow> fuel_le (catch_all m h) (catch_all m' h)"
  unfolding fuel_le_def catch_all_def
  by (auto split: option.splits outcome.splits prod.splits error.splits)

lemma fuel_leD: "fuel_le m m' \<Longrightarrow> m s = Some x \<Longrightarrow> m' s = Some x"
  unfolding fuel_le_def by blast

lemma recursive_dup_mono:
  "k \<le> k' \<Longrightarrow> fuel_le (recursive_dup k p :: ('a, 'e, ptr) prog) (recursive_dup k' p)"
proof (induction k arbitrary: k' p)
  case 0
  then show ?case by (simp add: fuel_le_none)
next
  case (Suc k)
  then obtain j where k': "k' = Suc j" and kj: "k \<le> j" by (cases k') auto
  show ?case
    unfolding k' recursive_dup.simps
    by (intro fuel_le_bnd fuel_le_if Suc.IH[OF kj] fuel_le_refl)
qed

lemma recursive_del_mono:
  "k \<le> k' \<Longrightarrow> fuel_le (recursive_del k p :: ('a, 'e, unit) prog) (recursive_del k' p)"
proof (induction k arbitrary: k' p)
  case 0
  then show ?case by (simp add: fuel_le_none)
next
  case (Suc k)
  then obtain j where k': "k' = Suc j" and kj: "k \<le> j" by (cases k') auto
  show ?case
    unfolding k' recursive_del.simps
    by (intro fuel_le_bnd fuel_le_if Suc.IH[OF kj] fuel_le_refl)
qed

lemma compare_siblings_loop_mono:
  "k \<le> k' \<Longrightarrow> fuel_le (compare_siblings_loop cmp k p) (compare_siblings_loop cmp k' p)"
proof (induction k arbitrary: k' p)
  case 0
  then show ?case by (simp add: fuel_le_none)
next
  case (Suc k)
  then obtain j where k': "k' = Suc j" and kj: "k \<le> j" by (cases k') auto
  show ?case
    unfolding k' compare_siblings_loop.simps
    by (intro fuel_le_bnd fuel_le_if Suc.IH[OF kj] fuel_le_refl)
qed

lemma compare_siblings_mono:
  "k \<le> k' \<Longrightarrow> fuel_le (compare_siblings cmp k p) (compare_siblings cmp k' p)"
  unfolding compare_siblings_def
  by (intro fuel_le_catch_all fuel_le_if compare_siblings_loop_mono fuel_le_refl)

lemma merge_siblings_mono:
  "k \<le> k' \<Longrightarrow> fuel_le (merge_siblings cmp k p) (merge_siblings cmp k' p)"
proof (induction k arbitrary: k' p)
  case 0
  then show ?case by (simp add: fuel_le_none)
next
  case (Suc k)
  then obtain j where k': "k' = Suc j" and kj: "k \<le> j" by (cases k') auto
  show ?case
    unfolding k' merge_siblings.simps
    by (intro fuel_le_bnd fuel_le_if Suc.IH[OF kj] fuel_le_refl)
qed

lemma pop_mono: "k \<le> k' \<Longrightarrow> fuel_le (pop cmp k q) (pop cmp k' q)"
  unfolding pop_def
  by (intro fuel_le_bnd fuel_le_if compare_siblings_mono merge_siblings_mono fuel_le_refl)

lemma assign_mono:
  "k \<le> k' \<Longrightarrow> fuel_le (assign k q q' :: ('a, 'e, unit) prog) (assign k' q q')"
  unfolding assign_def
  by (intro fuel_le_bnd fuel_le_if recursive_dup_mono recursive_del_mono fuel_le_refl)

lemma copy_ctor_mono:
  "k \<le> k' \<Longrightarrow> fuel_le (copy_ctor k q q' :: ('a, 'e, unit) prog) (copy_ctor k' q q')"
  unfolding copy_ctor_def
  by (intro fuel_le_bnd assign_mono fuel_le_refl)

lemma stored_allocated: "stored h t \<Longrightarrow> a \<in> set (addrs t) \<Longrightarrow> h a \<noteq> None"
  by (induction t) auto

lemma stored_below_next:
  "heap_ok s \<Longrightarrow> stored (nodes s) t \<Longrightarrow> a \<in> set (addrs t) \<Longrightarrow> a < next_addr s"
  using stored_allocated[of "nodes s" t a] unfolding heap_ok_def
  by (meson not_le)

lemma pq_update_all [simp]:
  "(x :: priority_queue)\<lparr>root := a, raw_size := b\<rparr> = \<lparr>root = a, raw_size = b\<rparr>"
  by (cases x) simp

lemma push_spec:
  fixes cmp :: "('a, 'e) Compare"
  assumes ok: "heap_ok s" and rt: "root (queues s q) = root_ptr t"
    and st: "stored (nodes s) t" and di: "distinct (addrs t)"
    and n: "n = next_addr s" and N: "N = NodeAt n e Absent Absent"
  shows "case meld_answer cmp (calls s) t N of
      Inl x \<Rightarrow> push cmp q e s =
          Some (Throw runtime_error, s\<lparr>next_addr := Suc n, calls := calls s @ meld_calls t N\<rparr>)
    | Inr r \<Rightarrow> (\<exists>s'. push cmp q e s = Some (Ok (), s')
          \<and> stored (nodes s') (meld_t (\<lambda>_ _. r) t N)
          \<and> queues s' = (queues s)(q := \<lparr>root = root_ptr (meld_t (\<lambda>_ _. r) t N),
               raw_size = raw_size (queues s q) + 1\<rparr>)
          \<and> next_addr s' = Suc n
          \<and> (\<forall>x. x \<notin> insert n (root_addr t) \<longrightarrow> nodes s' x = nodes s x)
          \<and> calls s' = calls s @ meld_calls t N)"
proof -
  define s1 where "s1 = s\<lparr>nodes := (nodes s)(n \<mapsto> \<lparr>val = e, child = None, sibling = None\<rparr>),
      next_addr := Suc n\<rparr>"
  have nn: "nodes s n = None" using ok by (simp add: heap_ok_def n)
  have nt: "n \<notin> set (addrs t)" using stored_below_next[OF ok st, of n] by (auto simp: n)
  have st1: "stored (nodes s1) t" using st nt by (simp add: s1_def)
  have stN: "stored (nodes s1) N" by (simp add: s1_def N)
  have d1: "distinct (addrs t @ addrs N)" using di nt by (simp add: N)
  define body :: "('a, 'e, unit) prog" where "body =
       bnd (get_root q) (\<lambda>r.
        bnd (meld_nodes cmp r (Some n)) (\<lambda>m.
        bnd (set_root q m) (\<lambda>_.
        bnd (get_raw_size q) (\<lambda>n.
        set_raw_size q (n + 1)))))"
  have unfold: "push cmp q e s =
      catch_runtime_error body (bnd (delete_node (Some n)) (\<lambda>_. throw runtime_error)) s1"
    by (simp add: push_def bnd_new_node body_def s1_def n)
  have body1: "body s1 = bnd (meld_nodes cmp (root_ptr t) (root_ptr N)) (\<lambda>m.
        bnd (set_root q m) (\<lambda>_.
        bnd (get_raw_size q) (\<lambda>n.
        set_raw_size q (n + 1)))) s1"
    using rt by (simp add: body_def bnd_get_root s1_def N)
  have c1: "calls s1 = calls s" by (simp add: s1_def)
  show ?thesis
  proof (cases "meld_answer cmp (calls s) t N")
    case (Inl x)
    from meld_nodes_fail[OF st1 stN, of cmp x] Inl
    have "body s1 = Some (Throw runtime_error, s1\<lparr>calls := calls s1 @ meld_calls t N\<rparr>)"
      by (simp add: body1 c1 bnd_eq_throw)
    then have "push cmp q e s = Some (Throw runtime_error,
        s1\<lparr>calls := calls s1 @ meld_calls t N, nodes := (nodes s1)(n := None)\<rparr>)"
      by (simp add: unfold catch_runtime_error_def bnd_delete_node s1_def throw_def)
    moreover have "(nodes s1)(n := None) = nodes s"
      using nn by (auto simp: s1_def fun_eq_iff)
    ultimately show ?thesis using Inl by (simp add: s1_def)
  next
    case (Inr r)
    let ?m = "meld_t (\<lambda>_ _. r) t N"
    from meld_nodes_ok[OF st1 stN d1, of cmp r] Inr obtain s2 where
      run: "meld_nodes cmp (root_ptr t) (root_ptr N) s1 = Some (Ok (root_ptr ?m), s2)"
      and st2: "stored (nodes s2) ?m" and fr: "same_except (root_addr t \<union> root_addr N) s1 s2"
      and c2: "calls s2 = calls s1 @ meld_calls t N"
      by (auto simp: c1)
    let ?s' = "s2\<lparr>queues := (queues s2)(q := \<lparr>root = root_ptr ?m,
               raw_size = raw_size (queues s2 q) + 1\<rparr>)\<rparr>"
    have "body s1 = Some (Ok (), ?s')"
      by (simp add: body1 bnd_eq_ok[of "meld_nodes cmp (root_ptr t) (root_ptr N)" s1, OF run]
          bnd_set_root bnd_get_raw_size set_raw_size_def)
    then have "push cmp q e s = Some (Ok (), ?s')"
      by (simp add: unfold catch_runtime_error_def)
    moreover have "queues s2 = queues s" "next_addr s2 = Suc n"
      using fr by (simp_all add: same_except_def s1_def)
    moreover have "\<forall>x. x \<notin> insert n (root_addr t) \<longrightarrow> nodes s2 x = nodes s x"
      using fr by (auto simp: same_except_def s1_def N)
    ultimately show ?thesis
      using Inr st2 c2 c1 by simp
  qed
qed

subsection \<open>Heap order on graphs\<close>

lemma swo_asym: "strict_weak_order lt \<Longrightarrow> lt a b \<Longrightarrow> \<not> lt b a"
  unfolding strict_weak_order_def by blast

lemma swo_irrefl: "strict_weak_order lt \<Longrightarrow> \<not> lt a a"
  unfolding strict_weak_order_def by blast

lemma swo_neg_trans: "strict_weak_order lt \<Longrightarrow> \<not> lt a b \<Longrightarrow> \<not> lt b c \<Longrightarrow> \<not> lt a c"
  unfolding strict_weak_order_def by blast

lemma heap_ordered_bound:
  "heap_ordered lt t \<Longrightarrow> strict_weak_order lt \<Longrightarrow> list_all (\<lambda>x. \<not> lt u x) (chain_vals t) \<Longrightarrow>
   x \<in># elems t \<Longrightarrow> \<not> lt u x"
proof (induction t arbitrary: u)
  case Absent
  then show ?case by simp
next
  case (NodeAt a v c sb)
  from NodeAt.prems have uv: "\<not> lt u v" and usb: "list_all (\<lambda>x. \<not> lt u x) (chain_vals sb)"
    and vc: "list_all (\<lambda>x. \<not> lt v x) (chain_vals c)" and hc: "heap_ordered lt c"
    and hsb: "heap_ordered lt sb"
    by auto
  from NodeAt.prems(4) consider "x = v" | "x \<in># elems c" | "x \<in># elems sb" by auto
  then show ?case
  proof cases
    case 1
    with uv show ?thesis by simp
  next
    case 2
    from NodeAt.IH(1)[OF hc NodeAt.prems(2) vc 2] have "\<not> lt v x" .
    with uv show ?thesis using swo_neg_trans[OF NodeAt.prems(2)] by blast
  next
    case 3
    from NodeAt.IH(2)[OF hsb NodeAt.prems(2) usb 3] show ?thesis .
  qed
qed

lemma heap_ordered_root_max:
  assumes "heap_ordered lt (NodeAt a v c sb)" "strict_weak_order lt" "x \<in># {#v#} + elems c"
  shows "\<not> lt v x"
proof -
  from assms(3) consider "x = v" | "x \<in># elems c" by auto
  then show ?thesis
  proof cases
    case 1
    then show ?thesis using swo_irrefl[OF assms(2)] by simp
  next
    case 2
    from assms(1) have "heap_ordered lt c" "list_all (\<lambda>x. \<not> lt v x) (chain_vals c)" by auto
    from heap_ordered_bound[OF this(1) assms(2) this(2) 2] show ?thesis .
  qed
qed

lemma heap_ordered_meld_t:
  "heap_ordered lt ta \<Longrightarrow> heap_ordered lt tb \<Longrightarrow> sibling_free ta \<Longrightarrow> sibling_free tb \<Longrightarrow>
   strict_weak_order lt \<Longrightarrow> heap_ordered lt (meld_t lt ta tb)"
  by (cases ta; cases tb) (auto dest: swo_asym)

lemma merge_pairs_sibling_free: "sibling_free (merge_pairs lt t)"
  by (induction lt t rule: merge_pairs.induct) (auto simp: meld_t_sibling_free)

lemma heap_ordered_merge_pairs:
  "heap_ordered lt t \<Longrightarrow> strict_weak_order lt \<Longrightarrow> heap_ordered lt (merge_pairs lt t)"
proof (induction lt t rule: merge_pairs.induct)
  case (3 lt a va ca b vb cb rest)
  let ?A = "NodeAt a va ca Absent" and ?B = "NodeAt b vb cb Absent"
  from 3 have "heap_ordered lt ?A" "heap_ordered lt ?B" "heap_ordered lt (merge_pairs lt rest)"
    by auto
  then have "heap_ordered lt (meld_t lt (meld_t lt ?A ?B) (merge_pairs lt rest))"
    using "3.prems"(2)
    by (intro heap_ordered_meld_t meld_t_sibling_free merge_pairs_sibling_free) auto
  then show ?case by simp
qed auto

lemma chain_vals_relocate: "chain_vals (relocate n t) = chain_vals t"
  by (induction t arbitrary: n) auto

lemma heap_ordered_relocate: "heap_ordered lt (relocate n t) = heap_ordered lt t"
  by (induction t arbitrary: n) (auto simp: chain_vals_relocate)

lemma relocate_Absent [simp]: "(relocate n t = Absent) = (t = Absent)"
  by (cases t) auto

lemma sibling_free_relocate: "sibling_free (relocate n t) = sibling_free t"
  by (cases t) auto

lemma ret_apply: "ret x s = Some (Ok x, s)"
  by (simp add: ret_def)

lemma throw_apply: "throw e s = Some (Throw e, s)"
  by (simp add: throw_def)

lemma set_raw_size_apply: "set_raw_size q n s =
    Some (Ok (), s\<lparr>queues := (queues s)(q := (queues s q)\<lparr>raw_size := n\<rparr>)\<rparr>)"
  by (simp add: set_raw_size_def)

subsection \<open>merge on two distinct queues\<close>

lemma merge_spec:
  fixes cmp :: "('a, 'e) Compare"
  assumes ne: "this \<noteq> other"
    and ra: "root (queues s this) = root_ptr ta" and sa: "stored (nodes s) ta"
    and rb: "root (queues s other) = root_ptr tb" and sb: "stored (nodes s) tb"
    and di: "distinct (addrs ta @ addrs tb)"
  shows "case meld_answer cmp (calls s) ta tb of
      Inl x \<Rightarrow> merge cmp this other s =
          Some (Throw runtime_error, s\<lparr>calls := calls s @ meld_calls ta tb\<rparr>)
    | Inr r \<Rightarrow> (\<exists>s'. merge cmp this other s = Some (Ok (), s')
          \<and> stored (nodes s') (meld_t (\<lambda>_ _. r) ta tb)
          \<and> queues s' = (queues s)(this := \<lparr>root = root_ptr (meld_t (\<lambda>_ _. r) ta tb),
                 raw_size = raw_size (queues s this) + raw_size (queues s other)\<rparr>,
               other := \<lparr>root = None, raw_size = 0\<rparr>)
          \<and> next_addr s' = next_addr s
          \<and> (\<forall>x. x \<notin> root_addr ta \<union> root_addr tb \<longrightarrow> nodes s' x = nodes s x)
          \<and> calls s' = calls s @ meld_calls ta tb)"
proof -
  have unfold: "merge cmp this other s = bnd (meld_nodes cmp (root_ptr ta) (root_ptr tb)) (\<lambda>m.
     bnd (set_root this m) (\<lambda>_.
     bnd (set_root other None) (\<lambda>_.
     bnd (get_raw_size this) (\<lambda>n.
     bnd (get_raw_size other) (\<lambda>no.
     bnd (set_raw_size this (n + no)) (\<lambda>_.
     set_raw_size other 0)))))) s"
    using ra rb by (simp add: merge_def bnd_get_root)
  show ?thesis
  proof (cases "meld_answer cmp (calls s) ta tb")
    case (Inl x)
    from meld_nodes_fail[OF sa sb Inl] show ?thesis
      using Inl by (simp add: unfold bnd_eq_throw)
  next
    case (Inr r)
    let ?m = "meld_t (\<lambda>_ _. r) ta tb"
    from meld_nodes_ok[OF sa sb di Inr] obtain s2 where
      run: "meld_nodes cmp (root_ptr ta) (root_ptr tb) s = Some (Ok (root_ptr ?m), s2)"
      and st2: "stored (nodes s2) ?m" and fr: "same_except (root_addr ta \<union> root_addr tb) s s2"
      and c2: "calls s2 = calls s @ meld_calls ta tb"
      by auto
    let ?s' = "s2\<lparr>queues := (queues s2)(this := \<lparr>root = root_ptr ?m,
                 raw_size = raw_size (queues s2 this) + raw_size (queues s2 other)\<rparr>,
               other := \<lparr>root = None, raw_size = 0\<rparr>)\<rparr>"
    have "(queues s2)(this := (queues s2 this)\<lparr>root := root_ptr ?m\<rparr>,
              other := \<lparr>root = None, raw_size = raw_size (queues s2 other)\<rparr>,
              this := \<lparr>root = root_ptr ?m,
                 raw_size = raw_size (queues s2 this) + raw_size (queues s2 other)\<rparr>,
              other := \<lparr>root = None, raw_size = 0\<rparr>) =
          (queues s2)(this := \<lparr>root = root_ptr ?m,
                 raw_size = raw_size (queues s2 this) + raw_size (queues s2 other)\<rparr>,
               other := \<lparr>root = None, raw_size = 0\<rparr>)"
      using ne by (auto simp: fun_eq_iff)
    then have "merge cmp this other s = Some (Ok (), ?s')"
      using ne
      by (simp add: unfold bnd_eq_ok[of "meld_nodes cmp (root_ptr ta) (root_ptr tb)" s, OF run]
          bnd_set_root bnd_get_raw_size bnd_set_raw_size set_raw_size_apply)
    moreover have "queues s2 = queues s" "next_addr s2 = next_addr s"
      "\<forall>x. x \<notin> root_addr ta \<union> root_addr tb \<longrightarrow> nodes s2 x = nodes s x"
      using fr by (simp_all add: same_except_def)
    ultimately show ?thesis using Inr st2 c2 by simp
  qed
qed

subsection \<open>pop, assignment and copy construction on well-formed queues\<close>

lemma pop_spec:
  fixes cmp :: "('a, 'e) Compare"
  assumes rt: "root (queues s q) = Some a"
    and st: "stored (nodes s) (NodeAt a v c Absent)"
    and di: "distinct (addrs (NodeAt a v c Absent))"
    and fu: "depth c < k"
  shows "\<exists>r s'. pop cmp k q s = Some (r, s') \<and>
    ((r = Throw runtime_error \<and> same_except (set (addrs c)) s s') \<or>
     (r = Ok () \<and> (\<exists>t'. stored (nodes s') t' \<and> set (addrs t') = set (addrs c)
         \<and> distinct (addrs t') \<and> elems t' = elems c \<and> sibling_free t'
         \<and> (cmp_agrees cmp lt \<longrightarrow> t' = merge_pairs lt c)
         \<and> queues s' = (queues s)(q := \<lparr>root = root_ptr t',
               raw_size = raw_size (queues s q) - 1\<rparr>)
         \<and> next_addr s' = next_addr s \<and> nodes s' a = None
         \<and> (\<forall>x. x \<notin> set (addrs (NodeAt a v c Absent)) \<longrightarrow> nodes s' x = nodes s x))))"
proof -
  from st di have na: "nodes s a = Some \<lparr>val = v, child = root_ptr c, sibling = None\<rparr>"
    and stc: "stored (nodes s) c" and dc: "distinct (addrs c)" and ac: "a \<notin> set (addrs c)"
    by auto
  define rest :: "('a, 'e, unit) prog" where "rest =
       bnd (read_node (Some a)) (\<lambda>n1.
       bnd (merge_siblings cmp k (child n1)) (\<lambda>new_root.
       bnd (get_root q) (\<lambda>r1.
       bnd (delete_node r1) (\<lambda>_.
       bnd (set_root q new_root) (\<lambda>_.
       bnd (get_raw_size q) (\<lambda>c.
       set_raw_size q (c - 1)))))))"
  have unfold: "pop cmp k q s = bnd (compare_siblings cmp k (root_ptr c)) (\<lambda>_. rest) s"
    using rt na by (simp add: pop_def rest_def bnd_get_root bnd_read_node)
  from compare_siblings_total[OF stc, of k cmp] fu obtain r1 s1 where
    run1: "compare_siblings cmp k (root_ptr c) s = Some (r1, s1)"
    and r1: "r1 = Ok () \<or> r1 = Throw runtime_error"
    and same1: "nodes s1 = nodes s" "queues s1 = queues s" "next_addr s1 = next_addr s"
    by auto
  from r1 show ?thesis
  proof
    assume "r1 = Throw runtime_error"
    with run1 have "pop cmp k q s = Some (Throw runtime_error, s1)"
      by (simp add: unfold bnd_eq_throw)
    moreover have "same_except (set (addrs c)) s s1" using same1 by (simp add: same_except_def)
    ultimately show ?thesis by blast
  next
    assume ok1: "r1 = Ok ()"
    have stc1: "stored (nodes s1) c" using stc same1 by simp
    have rest1: "rest s1 = bnd (merge_siblings cmp k (root_ptr c)) (\<lambda>new_root.
       bnd (get_root q) (\<lambda>r1.
       bnd (delete_node r1) (\<lambda>_.
       bnd (set_root q new_root) (\<lambda>_.
       bnd (get_raw_size q) (\<lambda>c.
       set_raw_size q (c - 1)))))) s1"
      using na same1 by (simp add: rest_def bnd_read_node)
    from merge_siblings_spec[OF stc1 dc fu, of cmp lt] obtain r2 s2 where
      run2: "merge_siblings cmp k (root_ptr c) s1 = Some (r2, s2)"
      and fr2: "same_except (set (addrs c)) s1 s2"
      and res2: "r2 = Throw runtime_error \<or>
        (\<exists>t'. r2 = Ok (root_ptr t') \<and> stored (nodes s2) t' \<and> set (addrs t') = set (addrs c)
            \<and> distinct (addrs t') \<and> elems t' = elems c \<and> sibling_free t'
            \<and> (t' = Absent) = (c = Absent)
            \<and> (cmp_agrees cmp lt \<longrightarrow> t' = merge_pairs lt c))"
      by blast
    have fr2': "same_except (set (addrs c)) s s2"
      using fr2 same1 by (simp add: same_except_def)
    from res2 show ?thesis
    proof
      assume "r2 = Throw runtime_error"
      with run1 ok1 run2 have "pop cmp k q s = Some (Throw runtime_error, s2)"
        by (simp add: unfold bnd_eq_ok[of "compare_siblings cmp k (root_ptr c)" s] rest1 bnd_eq_throw)
      with fr2' show ?thesis by blast
    next
      assume "\<exists>t'. r2 = Ok (root_ptr t') \<and> stored (nodes s2) t' \<and> set (addrs t') = set (addrs c)
            \<and> distinct (addrs t') \<and> elems t' = elems c \<and> sibling_free t'
            \<and> (t' = Absent) = (c = Absent)
            \<and> (cmp_agrees cmp lt \<longrightarrow> t' = merge_pairs lt c)"
      then obtain t' where r2: "r2 = Ok (root_ptr t')" and st2: "stored (nodes s2) t'"
        and props: "set (addrs t') = set (addrs c)" "distinct (addrs t')" "elems t' = elems c"
          "sibling_free t'" "cmp_agrees cmp lt \<longrightarrow> t' = merge_pairs lt c"
        by blast
      have a2: "nodes s2 a = Some \<lparr>val = v, child = root_ptr c, sibling = None\<rparr>"
        using fr2' na ac by (simp add: same_except_def)
      have q2: "queues s2 = queues s" "next_addr s2 = next_addr s"
        using fr2' by (simp_all add: same_except_def)
      let ?s' = "s2\<lparr>nodes := (nodes s2)(a := None),
          queues := (queues s2)(q := \<lparr>root = root_ptr t', raw_size = raw_size (queues s2 q) - 1\<rparr>)\<rparr>"
      have "rest s1 = Some (Ok (), ?s')"
        using rt a2 q2
        by (simp add: rest1 bnd_eq_ok[of "merge_siblings cmp k (root_ptr c)" s1, OF run2[unfolded r2]]
            bnd_get_root bnd_delete_node bnd_set_root bnd_get_raw_size set_raw_size_apply)
      with run1 ok1 have run: "pop cmp k q s = Some (Ok (), ?s')"
        by (simp add: unfold bnd_eq_ok[of "compare_siblings cmp k (root_ptr c)" s])
      have "stored (nodes ?s') t'" using st2 props(1) ac by simp
      moreover have "\<forall>x. x \<notin> set (addrs (NodeAt a v c Absent)) \<longrightarrow> nodes ?s' x = nodes s x"
        using fr2' by (simp add: same_except_def)
      ultimately show ?thesis using run props q2 by auto
    qed
  qed
qed

lemma assign_same_root:
  "root (queues s q) = root (queues s q') \<Longrightarrow>
   (assign k q q' :: ('a, 'e, unit) prog) s = Some (Ok (), s)"
  by (simp add: assign_def bnd_get_root ret_apply)

lemma assign_spec:
  assumes ok: "heap_ok s" and ne: "root (queues s q) \<noteq> root (queues s q')"
    and ra: "root (queues s q) = root_ptr ta" and sa: "stored (nodes s) ta"
    and rb: "root (queues s q') = root_ptr tb" and sb: "stored (nodes s) tb"
    and di: "distinct (addrs ta @ addrs tb)"
    and fa: "depth ta \<le> k"
  shows "(tb = Absent \<longrightarrow> (assign k q q' :: ('a, 'e, unit) prog) s =
            Some (Throw undefined_behaviour, s\<lparr>nodes := nodes s |` (- set (addrs ta))\<rparr>))
    \<and> (tb \<noteq> Absent \<and> depth tb \<le> k \<longrightarrow>
        (\<exists>s'. (assign k q q' :: ('a, 'e, unit) prog) s = Some (Ok (), s')
          \<and> stored (nodes s') (relocate (next_addr s) tb)
          \<and> queues s' = (queues s)(q := \<lparr>root = Some (next_addr s),
                 raw_size = raw_size (queues s q')\<rparr>)
          \<and> next_addr s' = next_addr s + length (addrs tb)
          \<and> (\<forall>x. x \<in> set (addrs ta) \<longrightarrow> nodes s' x = None)
          \<and> (\<forall>x. x \<notin> set (addrs ta) \<and> (x < next_addr s \<or> next_addr s' \<le> x) \<longrightarrow>
                nodes s' x = nodes s x)
          \<and> calls s' = calls s))"
proof -
  define s1 where "s1 = s\<lparr>nodes := nodes s |` (- set (addrs ta))\<rparr>"
  define D :: "('a, 'e, unit) prog" where "D = (if root_ptr ta \<noteq> None
          then bnd (recursive_del k (root_ptr ta)) (\<lambda>_. delete_node (root_ptr ta))
          else ret ())"
  from di have da: "distinct (addrs ta)" and db: "distinct (addrs tb)"
    and dab: "set (addrs ta) \<inter> set (addrs tb) = {}" by auto
  have del: "D s = Some (Ok (), s1)"
    unfolding D_def s1_def by (rule delete_subgraph_spec[OF sa da fa])
  have unfold: "(assign k q q' :: ('a, 'e, unit) prog) s =
      bnd (recursive_dup k (root_ptr tb)) (\<lambda>d.
       bnd (set_root q d) (\<lambda>_.
       bnd (get_raw_size q') (\<lambda>n.
       set_raw_size q n))) s1"
  proof -
    have "(assign k q q' :: ('a, 'e, unit) prog) s = bnd D (\<lambda>_.
       bnd (get_root q') (\<lambda>ro1.
       bnd (recursive_dup k ro1) (\<lambda>d.
       bnd (set_root q d) (\<lambda>_.
       bnd (get_raw_size q') (\<lambda>n.
       set_raw_size q n))))) s"
      using ne ra by (simp add: assign_def bnd_get_root D_def)
    also have "\<dots> = bnd (recursive_dup k (root_ptr tb)) (\<lambda>d.
       bnd (set_root q d) (\<lambda>_.
       bnd (get_raw_size q') (\<lambda>n.
       set_raw_size q n))) s1"
      using rb by (simp add: bnd_eq_ok[of D s, OF del] bnd_get_root s1_def)
    finally show ?thesis .
  qed
  have sb1: "stored (nodes s1) tb"
    using dab by (auto intro!: stored_frame[OF sb] simp: s1_def restrict_map_def)
  have lt1: "set (addrs tb) \<subseteq> {..<next_addr s1}"
    using stored_below_next[OF ok sb] by (auto simp: s1_def)
  show ?thesis
  proof (intro conjI impI)
    assume tb: "tb = Absent"
    with ne ra rb have "ta \<noteq> Absent" by auto
    with fa obtain k' where "k = Suc k'" by (cases k; cases ta) auto
    with tb have "(recursive_dup k (root_ptr tb) :: ('a, 'e, ptr) prog) s1
        = Some (Throw undefined_behaviour, s1)"
      by (simp add: bnd_read_node)
    then show "(assign k q q' :: ('a, 'e, unit) prog) s =
            Some (Throw undefined_behaviour, s\<lparr>nodes := nodes s |` (- set (addrs ta))\<rparr>)"
      unfolding unfold by (simp add: bnd_eq_throw s1_def)
  next
    assume h: "tb \<noteq> Absent \<and> depth tb \<le> k"
    from recursive_dup_spec[OF sb1 _ lt1, of k] h obtain s2 where
      run: "(recursive_dup k (root_ptr tb) :: ('a, 'e, ptr) prog) s1
          = Some (Ok (Some (next_addr s1)), s2)"
      and st2: "stored (nodes s2) (relocate (next_addr s1) tb)"
      and nx2: "next_addr s2 = next_addr s1 + length (addrs tb)"
      and fr2: "\<forall>x. x < next_addr s1 \<or> next_addr s2 \<le> x \<longrightarrow> nodes s2 x = nodes s1 x"
      and q2: "queues s2 = queues s1" "calls s2 = calls s1"
      by blast
    let ?s' = "s2\<lparr>queues := (queues s2)(q := \<lparr>root = Some (next_addr s1),
                 raw_size = raw_size (queues s2 q')\<rparr>)\<rparr>"
    have qne: "q \<noteq> q'" using ne by auto
    have "(assign k q q' :: ('a, 'e, unit) prog) s = Some (Ok (), ?s')"
      unfolding unfold using qne
      by (simp add: bnd_eq_ok[of "recursive_dup k (root_ptr tb)" s1, OF run]
          bnd_set_root bnd_get_raw_size set_raw_size_apply)
    moreover have "\<forall>x. x \<in> set (addrs ta) \<longrightarrow> nodes s2 x = None"
      using fr2 stored_below_next[OF ok sa] by (auto simp: s1_def restrict_map_def)
    moreover have "\<forall>x. x \<notin> set (addrs ta) \<and> (x < next_addr s \<or> next_addr s2 \<le> x) \<longrightarrow>
                nodes s2 x = nodes s x"
      using fr2 by (auto simp: s1_def restrict_map_def)
    ultimately show "\<exists>s'. (assign k q q' :: ('a, 'e, unit) prog) s = Some (Ok (), s')
          \<and> stored (nodes s') (relocate (next_addr s) tb)
          \<and> queues s' = (queues s)(q := \<lparr>root = Some (next_addr s),
                 raw_size = raw_size (queues s q')\<rparr>)
          \<and> next_addr s' = next_addr s + length (addrs tb)
          \<and> (\<forall>x. x \<in> set (addrs ta) \<longrightarrow> nodes s' x = None)
          \<and> (\<forall>x. x \<notin> set (addrs ta) \<and> (x < next_addr s \<or> next_addr s' \<le> x) \<longrightarrow>
                nodes s' x = nodes s x)
          \<and> calls s' = calls s"
      using st2 nx2 q2 by (auto simp: s1_def)
  qed
qed

lemma same_shape_relocate: "same_shape t (relocate n t)"
  by (induction t arbitrary: n) auto

lemma stored_below_next_set:
  "heap_ok s \<Longrightarrow> stored (nodes s) t \<Longrightarrow> set (addrs t) \<subseteq> {..<next_addr s}"
  using stored_below_next by fastforce

lemma copy_ctor_unfold:
  "(copy_ctor k this other :: ('a, 'e, unit) prog) s =
     assign k this other (s\<lparr>queues := (queues s)(this := \<lparr>root = None, raw_size = 0\<rparr>)\<rparr>)"
  by (simp add: copy_ctor_def bnd_default_ctor)

lemma copy_spec:
  fixes s :: "'a state"
  assumes ok: "heap_ok s" and ne: "this \<noteq> other"
    and ra: "root (queues s this) = root_ptr ta" and sa: "stored (nodes s) ta"
    and rb: "root (queues s other) = root_ptr tb" and sb: "stored (nodes s) tb"
    and di: "distinct (addrs ta @ addrs tb)"
    and fa: "depth ta \<le> k" and fb: "depth tb \<le> k" and nb: "tb \<noteq> Absent"
    and run: "(assign k this other :: ('a, 'e, unit) prog) s = Some (r, s')
       \<or> (copy_ctor k this other :: ('a, 'e, unit) prog) s = Some (r, s')"
  shows "r = Ok ()
     \<and> stored (nodes s') (relocate (next_addr s) tb)
     \<and> stored (nodes s') tb
     \<and> queues s' = (queues s)(this := \<lparr>root = Some (next_addr s),
                 raw_size = raw_size (queues s other)\<rparr>)
     \<and> next_addr s' = next_addr s + length (addrs tb)
     \<and> (\<forall>x. next_addr s' \<le> x \<longrightarrow> nodes s' x = None)
     \<and> (\<forall>x. x < next_addr s \<and> nodes s' x \<noteq> None \<longrightarrow> nodes s' x = nodes s x)
     \<and> calls s' = calls s"
proof -
  have dab: "set (addrs ta) \<inter> set (addrs tb) = {}" using di by auto
  have below: "set (addrs tb) \<subseteq> {..<next_addr s}" by (rule stored_below_next_set[OF ok sb])
  have ne_root: "root_ptr ta \<noteq> root_ptr tb"
  proof
    assume e: "root_ptr ta = root_ptr tb"
    from nb obtain b vb cb sbb where tb: "tb = NodeAt b vb cb sbb" by (cases tb) auto
    with e obtain v c sb' where "ta = NodeAt b v c sb'" using root_ptr_Some[of ta b] by auto
    with tb dab show False by auto
  qed
  from run show ?thesis
  proof
    assume a: "(assign k this other :: ('a, 'e, unit) prog) s = Some (r, s')"
    from assign_spec[OF ok _ ra sa rb sb di fa, THEN conjunct2] ne_root ra rb nb fb
    obtain s2 where a2: "(assign k this other :: ('a, 'e, unit) prog) s = Some (Ok (), s2)"
      and p: "stored (nodes s2) (relocate (next_addr s) tb)"
        "queues s2 = (queues s)(this := \<lparr>root = Some (next_addr s),
                 raw_size = raw_size (queues s other)\<rparr>)"
        "next_addr s2 = next_addr s + length (addrs tb)"
        "\<forall>x. x \<in> set (addrs ta) \<longrightarrow> nodes s2 x = None"
        "\<forall>x. x \<notin> set (addrs ta) \<and> (x < next_addr s \<or> next_addr s2 \<le> x) \<longrightarrow>
                nodes s2 x = nodes s x"
        "calls s2 = calls s"
      by auto
    from a a2 have eq: "r = Ok ()" "s' = s2" by auto
    have "stored (nodes s2) tb"
      using p(5) dab below by (intro stored_frame[OF sb]) auto
    moreover have "\<forall>x. next_addr s2 \<le> x \<longrightarrow> nodes s2 x = None"
    proof (intro allI impI)
      fix x assume x: "next_addr s2 \<le> x"
      show "nodes s2 x = None"
      proof (cases "x \<in> set (addrs ta)")
        case True
        with p(4) show ?thesis by simp
      next
        case False
        with p(5) x have "nodes s2 x = nodes s x" by simp
        moreover have "next_addr s \<le> x" using x p(3) by simp
        ultimately show ?thesis using ok by (simp add: heap_ok_def)
      qed
    qed
    moreover have "\<forall>x. x < next_addr s \<and> nodes s2 x \<noteq> None \<longrightarrow> nodes s2 x = nodes s x"
      using p(4,5) by auto
    ultimately show ?thesis using p eq by simp
  next
    assume c: "(copy_ctor k this other :: ('a, 'e, unit) prog) s = Some (r, s')"
    define s0 where "s0 = s\<lparr>queues := (queues s)(this := \<lparr>root = None, raw_size = 0\<rparr>)\<rparr>"
    have ok0: "heap_ok s0" using ok by (simp add: heap_ok_def s0_def)
    have r0: "root (queues s0 this) = root_ptr (Absent :: 'a ntree)" by (simp add: s0_def)
    have rb0: "root (queues s0 other) = root_ptr tb" using rb ne by (simp add: s0_def)
    have sb0: "stored (nodes s0) tb" using sb by (simp add: s0_def)
    have ne0: "root (queues s0 this) \<noteq> root (queues s0 other)"
      unfolding r0 rb0 using nb by (cases tb) auto
    have di0: "distinct (addrs (Absent :: 'a ntree) @ addrs tb)" using di by simp
    from assign_spec[OF ok0 ne0 r0 _ rb0 sb0 di0, where k = k, THEN conjunct2] nb fb
    obtain s2 where a2: "(assign k this other :: ('a, 'e, unit) prog) s0 = Some (Ok (), s2)"
      and p: "stored (nodes s2) (relocate (next_addr s0) tb)"
        "queues s2 = (queues s0)(this := \<lparr>root = Some (next_addr s0),
                 raw_size = raw_size (queues s0 other)\<rparr>)"
        "next_addr s2 = next_addr s0 + length (addrs tb)"
        "\<forall>x. x \<notin> set (addrs (Absent :: 'a ntree)) \<and> (x < next_addr s0 \<or> next_addr s2 \<le> x) \<longrightarrow>
                nodes s2 x = nodes s0 x"
        "calls s2 = calls s0"
      by auto
    from c a2 have eq: "r = Ok ()" "s' = s2" by (auto simp: copy_ctor_unfold s0_def)
    have "stored (nodes s2) tb"
      using p(4) below by (intro stored_frame[OF sb]) (auto simp: s0_def)
    moreover have "\<forall>x. next_addr s2 \<le> x \<longrightarrow> nodes s2 x = None"
    proof (intro allI impI)
      fix x assume x: "next_addr s2 \<le> x"
      with p(4) have "nodes s2 x = nodes s x" by (simp add: s0_def)
      moreover have "next_addr s \<le> x" using x p(3) by (simp add: s0_def)
      ultimately show "nodes s2 x = None" using ok by (simp add: heap_ok_def)
    qed
    moreover have "\<forall>x. x < next_addr s \<and> nodes s2 x \<noteq> None \<longrightarrow> nodes s2 x = nodes s x"
      using p(4) by (auto simp: s0_def)
    moreover have "queues s2 = (queues s)(this := \<lparr>root = Some (next_addr s),
                 raw_size = raw_size (queues s other)\<rparr>)"
      using p(2) ne by (auto simp: s0_def fun_eq_iff)
    ultimately show ?thesis using p eq by (simp add: s0_def)
  qed
qed

lemma unchanged_forI:
  assumes "queues s' q = queues s q"
    and "\<And>a. root (queues s q) = Some a \<Longrightarrow> nodes s' a = nodes s a"
  shows "unchanged_for q s s'"
proof (cases "root (queues s q)")
  case None
  with assms(1) show ?thesis
    by (simp add: unchanged_for_def top_pq_def empty_pq_def size_pq_def prims)
next
  case (Some a)
  with assms(1) assms(2)[OF Some] show ?thesis
    by (simp add: unchanged_for_def top_pq_def empty_pq_def size_pq_def prims split: option.splits)
qed

lemma push_frame:
  fixes cmp :: "('a, 'e) Compare"
  assumes ok: "heap_ok s" and rt: "root (queues s q) = root_ptr t"
    and st: "stored (nodes s) t" and di: "distinct (addrs t)"
  shows "\<exists>r s'. push cmp q e s = Some (r, s')
     \<and> (\<forall>q'. q' \<noteq> q \<longrightarrow> queues s' q' = queues s q')
     \<and> (\<forall>x. x < next_addr s \<and> x \<notin> root_addr t \<longrightarrow> nodes s' x = nodes s x)"
proof (cases "meld_answer cmp (calls s) t (NodeAt (next_addr s) e Absent Absent)")
  case (Inl x)
  with push_spec[OF ok rt st di refl refl, of cmp e] show ?thesis by simp
next
  case (Inr r)
  with push_spec[OF ok rt st di refl refl, of cmp e] show ?thesis by auto
qed

lemma pop_frame:
  fixes cmp :: "('a, 'e) Compare"
  assumes rt: "root (queues s q) = root_ptr t"
    and st: "stored (nodes s) t" and di: "distinct (addrs t)" and sf: "sibling_free t"
  shows "(depth t \<le> k \<longrightarrow> (\<exists>r s'. pop cmp k q s = Some (r, s')))
     \<and> (\<forall>r s'. pop cmp k q s = Some (r, s') \<longrightarrow>
          (\<forall>q'. q' \<noteq> q \<longrightarrow> queues s' q' = queues s q')
        \<and> (\<forall>x. x \<notin> set (addrs t) \<longrightarrow> nodes s' x = nodes s x))"
proof (cases t)
  case Absent
  with rt have "pop cmp k q s = Some (Throw container_is_empty, s)"
    by (simp add: pop_def bnd_get_root throw_apply)
  then show ?thesis by simp
next
  case (NodeAt a v c sb)
  with sf have t: "t = NodeAt a v c Absent" by simp
  have rt': "root (queues s q) = Some a" using rt t by simp
  note spec = pop_spec[OF rt' st[unfolded t] di[unfolded t], of _ cmp "\<lambda>_ _. False"]
  have frame: "(\<forall>q'. q' \<noteq> q \<longrightarrow> queues s' q' = queues s q')
        \<and> (\<forall>x. x \<notin> set (addrs t) \<longrightarrow> nodes s' x = nodes s x)"
    if run: "pop cmp K q s = Some (r, s')" and K: "depth c < K" for K r s'
    using spec[OF K] run by (auto simp: same_except_def t)
  show ?thesis
  proof (intro conjI allI impI)
    assume "depth t \<le> k"
    then have "depth c < k" by (simp add: t)
    from spec[OF this] show "\<exists>r s'. pop cmp k q s = Some (r, s')" by blast
  next
    fix r s' q'
    assume run: "pop cmp k q s = Some (r, s')" and "q' \<noteq> q"
    from fuel_leD[OF pop_mono run, of "max k (Suc (depth c))"]
    have "pop cmp (max k (Suc (depth c))) q s = Some (r, s')" by simp
    from frame[OF this] \<open>q' \<noteq> q\<close> show "queues s' q' = queues s q'" by simp
  next
    fix r s' x
    assume run: "pop cmp k q s = Some (r, s')" and "x \<notin> set (addrs t)"
    from fuel_leD[OF pop_mono run, of "max k (Suc (depth c))"]
    have "pop cmp (max k (Suc (depth c))) q s = Some (r, s')" by simp
    from frame[OF this] \<open>x \<notin> set (addrs t)\<close> show "nodes s' x = nodes s x" by simp
  qed
qed

lemma disjoint_queues_independent:
  fixes cmp :: "('a, 'e) Compare"
  assumes ok: "heap_ok s" and ne: "q1 \<noteq> q2"
    and r1: "root (queues s q1) = root_ptr t1" and s1: "stored (nodes s) t1"
    and d1: "distinct (addrs t1)" and f1: "sibling_free t1"
    and r2: "root (queues s q2) = root_ptr t2" and s2: "stored (nodes s) t2"
    and dj: "set (addrs t1) \<inter> set (addrs t2) = {}"
  shows "(\<exists>r s'. push cmp q1 e s = Some (r, s'))
     \<and> (depth t1 \<le> k \<longrightarrow> (\<exists>r s'. pop cmp k q1 s = Some (r, s')))
     \<and> (\<forall>r s'. push cmp q1 e s = Some (r, s') \<or> pop cmp k q1 s = Some (r, s') \<longrightarrow>
           unchanged_for q2 s s')"
proof (intro conjI allI impI)
  from push_frame[OF ok r1 s1 d1, of cmp e]
  show "\<exists>r s'. push cmp q1 e s = Some (r, s')" by blast
next
  assume "depth t1 \<le> k"
  with pop_frame[OF r1 s1 d1 f1, of k cmp]
  show "\<exists>r s'. pop cmp k q1 s = Some (r, s')" by blast
next
  fix r s'
  assume run: "push cmp q1 e s = Some (r, s') \<or> pop cmp k q1 s = Some (r, s')"
  have root2: "a \<notin> set (addrs t1) \<and> a < next_addr s" if "root (queues s q2) = Some a" for a
  proof -
    from that r2 obtain v c sb where "t2 = NodeAt a v c sb" using root_ptr_Some[of t2 a] by auto
    then have "a \<in> set (addrs t2)" by simp
    with dj stored_below_next[OF ok s2] show ?thesis by auto
  qed
  from run show "unchanged_for q2 s s'"
  proof
    assume "push cmp q1 e s = Some (r, s')"
    with push_frame[OF ok r1 s1 d1, of cmp e]
    have "\<forall>q'. q' \<noteq> q1 \<longrightarrow> queues s' q' = queues s q'"
      "\<forall>x. x < next_addr s \<and> x \<notin> root_addr t1 \<longrightarrow> nodes s' x = nodes s x" by auto
    with ne root2 root_addr_subset[of t1] show ?thesis
      by (intro unchanged_forI) auto
  next
    assume "pop cmp k q1 s = Some (r, s')"
    with pop_frame[OF r1 s1 d1 f1, of k cmp]
    have "\<forall>q'. q' \<noteq> q1 \<longrightarrow> queues s' q' = queues s q'"
      "\<forall>x. x \<notin> set (addrs t1) \<longrightarrow> nodes s' x = nodes s x" by auto
    with ne root2 show ?thesis
      by (intro unchanged_forI) auto
  qed
qed

lemma depth_same_shape: "same_shape t t' \<Longrightarrow> depth t' = depth t"
  by (induction t t' rule: same_shape.induct) auto

lemma independent_afterI:
  fixes cmp :: "('a, 'e) Compare"
  assumes ok: "heap_ok s" and ne: "C \<noteq> A"
    and rc: "root (queues s C) = root_ptr tc" and sc: "stored (nodes s) tc"
    and dc: "distinct (addrs tc)" and fc: "sibling_free tc"
    and ra: "root (queues s A) = root_ptr ta" and sa: "stored (nodes s) ta"
    and da: "distinct (addrs ta)" and fa: "sibling_free ta"
    and dj: "set (addrs tc) \<inter> set (addrs ta) = {}"
    and sh: "same_shape ta tc" and sz: "raw_size (queues s C) = raw_size (queues s A)"
    and dk: "depth ta \<le> k"
  shows "independent_after cmp C A ta k s"
proof -
  have dj': "set (addrs ta) \<inter> set (addrs tc) = {}" using dj by auto
  have dkc: "depth tc \<le> k" using dk depth_same_shape[OF sh] by simp
  note CA = disjoint_queues_independent[OF ok ne rc sc dc fc ra sa dj, of cmp]
  note AC = disjoint_queues_independent[OF ok ne[symmetric] ra sa da fa rc sc dj', of cmp]
  show ?thesis
    unfolding independent_after_def
  proof (intro conjI allI impI)
    show "\<exists>tc. root (queues s C) = root_ptr tc \<and> stored (nodes s) tc \<and> distinct (addrs tc)
          \<and> same_shape ta tc \<and> set (addrs tc) \<inter> set (addrs ta) = {}
          \<and> root (queues s A) = root_ptr ta \<and> stored (nodes s) ta
          \<and> raw_size (queues s C) = raw_size (queues s A)"
      using rc sc dc sh dj ra sa sz by blast
    show "\<exists>r s'. push cmp C e s = Some (r, s')" for e using CA[of e k] by blast
    show "\<exists>r s'. push cmp A e s = Some (r, s')" for e using AC[of e k] by blast
    show "\<exists>r s'. pop cmp k C s = Some (r, s')" using CA[of undefined k] dkc by blast
    show "\<exists>r s'. pop cmp k A s = Some (r, s')" using AC[of undefined k] dk by blast
    show "unchanged_for A s s'"
      if "push cmp C e s = Some (r, s') \<or> pop cmp k' C s = Some (r, s')" for e k' r s'
      using CA[of e k'] that by blast
    show "unchanged_for C s s'"
      if "push cmp A e s = Some (r, s') \<or> pop cmp k' A s = Some (r, s')" for e k' r s'
      using AC[of e k'] that by blast
  qed
qed

subsection \<open>The invariant is kept by every operation that returns normally\<close>

lemma world_okD:
  assumes "world_ok lt s T"
  shows "heap_ok s" "root (queues s q) = root_ptr (T q)" "stored (nodes s) (T q)"
    "distinct (addrs (T q))" "sibling_free (T q)" "heap_ordered lt (T q)"
    "q \<noteq> q' \<Longrightarrow> set (addrs (T q)) \<inter> set (addrs (T q')) = {}"
  using assms unfolding world_ok_def by blast+

lemma world_ok_update:
  assumes w: "world_ok lt s T"
    and hp: "heap_ok s'"
    and rq: "root (queues s' q) = root_ptr t'" and st: "stored (nodes s') t'"
    and dt: "distinct (addrs t')" and sf: "sibling_free t'" and ho: "heap_ordered lt t'"
    and others: "\<And>q'. q' \<noteq> q \<Longrightarrow> queues s' q' = queues s q'"
    and frame: "\<And>q' x. q' \<noteq> q \<Longrightarrow> x \<in> set (addrs (T q')) \<Longrightarrow> nodes s' x = nodes s x"
    and dj: "\<And>q'. q' \<noteq> q \<Longrightarrow> set (addrs t') \<inter> set (addrs (T q')) = {}"
  shows "world_ok lt s' (T(q := t'))"
  unfolding world_ok_def
proof (intro conjI allI impI)
  show "heap_ok s'" by (rule hp)
next
  fix p
  show "root (queues s' p) = root_ptr ((T(q := t')) p)"
    using rq others[of p] world_okD(2)[OF w, of p] by auto
  show "stored (nodes s') ((T(q := t')) p)"
  proof (cases "p = q")
    case True
    with st show ?thesis by simp
  next
    case False
    then have "stored (nodes s') (T p)"
      using frame[of p] by (intro stored_frame[OF world_okD(3)[OF w, of p]]) auto
    with False show ?thesis by simp
  qed
  show "distinct (addrs ((T(q := t')) p))" using dt world_okD(4)[OF w, of p] by auto
  show "sibling_free ((T(q := t')) p)" using sf world_okD(5)[OF w, of p] by auto
  show "heap_ordered lt ((T(q := t')) p)" using ho world_okD(6)[OF w, of p] by auto
next
  fix p p' :: qref
  assume "p \<noteq> p'"
  then show "set (addrs ((T(q := t')) p)) \<inter> set (addrs ((T(q := t')) p')) = {}"
    using dj[of p] dj[of p'] world_okD(7)[OF w, of p p'] by auto
qed

lemma world_ok_init: "world_ok lt init_state (\<lambda>_. Absent)"
  by (simp add: world_ok_def init_state_def heap_ok_def)

lemma step_construct:
  assumes w: "world_ok lt s T"
    and run: "(default_ctor q :: ('a, 'e, unit) prog) s = Some (Ok (), s')"
  shows "world_ok lt s' (T(q := Absent))"
proof -
  from run have s': "s' = s\<lparr>queues := (queues s)(q := \<lparr>root = None, raw_size = 0\<rparr>)\<rparr>"
    by (simp add: default_ctor_def)
  show ?thesis
    using world_okD(1)[OF w]
    by (intro world_ok_update[OF w]) (simp_all add: s' heap_ok_def)
qed

lemma step_push:
  fixes cmp :: "('a, 'e) Compare"
  assumes w: "world_ok lt s T" and swo: "strict_weak_order lt" and ag: "cmp_agrees cmp lt"
    and run: "push cmp q e s = Some (Ok (), s')"
  shows "\<exists>t'. world_ok lt s' (T(q := t')) \<and> elems t' = elems (T q) + {#e#}"
proof -
  let ?n = "next_addr s"
  let ?N = "NodeAt ?n e Absent Absent"
  note hk = world_okD(1)[OF w]
  note wq = hk world_okD(2-6)[OF w, of q]
  note spec = push_spec[OF wq(1,2,3,4) refl refl, of cmp e]
  have nt: "?n \<notin> set (addrs (T p))" for p
    using stored_below_next[OF wq(1) world_okD(3)[OF w, of p], of ?n] by auto
  show ?thesis
  proof (cases "meld_answer cmp (calls s) (T q) ?N")
    case (Inl x)
    with spec run show ?thesis by simp
  next
    case (Inr r)
    define t' where "t' = meld_t (\<lambda>_ _. r) (T q) ?N"
    from spec Inr run have st: "stored (nodes s') t'"
      and qs: "queues s' = (queues s)(q := \<lparr>root = root_ptr t',
               raw_size = raw_size (queues s q) + 1\<rparr>)"
      and nx: "next_addr s' = Suc ?n"
      and fr: "\<forall>x. x \<notin> insert ?n (root_addr (T q)) \<longrightarrow> nodes s' x = nodes s x"
      unfolding t'_def by auto
    have t'_lt: "t' = meld_t lt (T q) ?N" unfolding t'_def by (rule meld_t_agrees[OF ag Inr])
    have sfN: "sibling_free ?N" by simp
    have ad: "set (addrs t') = set (addrs (T q)) \<union> {?n}"
      unfolding t'_def using meld_t_addrs[OF wq(5) sfN] by simp
    have hp: "heap_ok s'"
      unfolding heap_ok_def
    proof (intro allI impI)
      fix x assume x: "next_addr s' \<le> x"
      then have "x \<notin> insert ?n (root_addr (T q))"
        using nx root_addr_subset[of "T q"] stored_below_next[OF wq(1,3), of x] by auto
      with fr have "nodes s' x = nodes s x" by simp
      then show "nodes s' x = None" using wq(1) x nx by (simp add: heap_ok_def)
    qed
    have "world_ok lt s' (T(q := t'))"
    proof (rule world_ok_update[OF w hp])
      show "root (queues s' q) = root_ptr t'" using qs by simp
      show "stored (nodes s') t'" by (rule st)
      show "distinct (addrs t')"
        unfolding t'_def using wq(4) nt[of q] by (intro meld_t_distinct[OF wq(5) sfN]) simp
      show "sibling_free t'" unfolding t'_def by (rule meld_t_sibling_free[OF wq(5) sfN])
      show "heap_ordered lt t'"
        unfolding t'_lt by (rule heap_ordered_meld_t[OF wq(6) _ wq(5) sfN swo]) simp
      show "queues s' q' = queues s q'" if "q' \<noteq> q" for q' using qs that by simp
      show "nodes s' x = nodes s x" if "q' \<noteq> q" "x \<in> set (addrs (T q'))" for q' x
      proof -
        have "x \<notin> set (addrs (T q))" using world_okD(7)[OF w that(1)] that(2) by auto
        then have "x \<notin> insert ?n (root_addr (T q))"
          using root_addr_subset[of "T q"] nt[of q'] that(2) by auto
        with fr show ?thesis by simp
      qed
      show "set (addrs t') \<inter> set (addrs (T q')) = {}" if "q' \<noteq> q" for q'
        unfolding ad using world_okD(7)[OF w that] nt[of q'] by auto
    qed
    moreover have "elems t' = elems (T q) + {#e#}"
      unfolding t'_def using meld_t_elems[OF wq(5) sfN] by simp
    ultimately show ?thesis by blast
  qed
qed

lemma step_pop:
  fixes cmp :: "('a, 'e) Compare"
  assumes w: "world_ok lt s T" and swo: "strict_weak_order lt" and ag: "cmp_agrees cmp lt"
    and run: "pop cmp k q s = Some (Ok (), s')"
  shows "\<exists>t'. world_ok lt s' (T(q := t'))"
proof -
  note hk = world_okD(1)[OF w]
  note wq = hk world_okD(2-6)[OF w, of q]
  show ?thesis
  proof (cases "T q")
    case Absent
    with wq(2) have "pop cmp k q s = Some (Throw container_is_empty, s)"
      by (simp add: pop_def bnd_get_root throw_apply)
    with run show ?thesis by simp
  next
    case (NodeAt a v c sb)
    with wq(5) have t: "T q = NodeAt a v c Absent" by simp
    have rt: "root (queues s q) = Some a" using wq(2) t by simp
    define K where "K = max k (Suc (depth c))"
    have runK: "pop cmp K q s = Some (Ok (), s')"
      using fuel_leD[OF pop_mono run, of K] by (simp add: K_def)
    have "depth c < K" by (simp add: K_def)
    from pop_spec[OF rt wq(3)[unfolded t] wq(4)[unfolded t] this, of cmp lt] runK ag
    obtain t' where st: "stored (nodes s') t'" and ad: "set (addrs t') = set (addrs c)"
      and dt: "distinct (addrs t')" and sf: "sibling_free t'" and t': "t' = merge_pairs lt c"
      and qs: "queues s' = (queues s)(q := \<lparr>root = root_ptr t',
               raw_size = raw_size (queues s q) - 1\<rparr>)"
      and nx: "next_addr s' = next_addr s"
      and fr: "\<forall>x. x \<notin> set (addrs (NodeAt a v c Absent)) \<longrightarrow> nodes s' x = nodes s x"
      by auto
    have hp: "heap_ok s'"
      unfolding heap_ok_def
    proof (intro allI impI)
      fix x assume x: "next_addr s' \<le> x"
      then have "x \<notin> set (addrs (NodeAt a v c Absent))"
        using nx stored_below_next[OF hk wq(3), of x] t by auto
      with fr have "nodes s' x = nodes s x" by simp
      then show "nodes s' x = None" using hk x nx by (simp add: heap_ok_def)
    qed
    have "world_ok lt s' (T(q := t'))"
    proof (rule world_ok_update[OF w hp _ st dt sf])
      show "root (queues s' q) = root_ptr t'" using qs by simp
      show "heap_ordered lt t'"
        unfolding t' using wq(6) t by (intro heap_ordered_merge_pairs[OF _ swo]) simp
      show "queues s' q' = queues s q'" if "q' \<noteq> q" for q' using qs that by simp
      show "nodes s' x = nodes s x" if "q' \<noteq> q" "x \<in> set (addrs (T q'))" for q' x
      proof -
        have "x \<notin> set (addrs (T q))" using world_okD(7)[OF w that(1)] that(2) by auto
        with fr t show ?thesis by simp
      qed
      show "set (addrs t') \<inter> set (addrs (T q')) = {}" if "q' \<noteq> q" for q'
        unfolding ad using world_okD(7)[OF w that[symmetric]] t by auto
    qed
    then show ?thesis by blast
  qed
qed

lemma merge_self:
  fixes cmp :: "('a, 'e) Compare"
  assumes rt: "root (queues s q) = root_ptr t" and st: "stored (nodes s) t"
    and run: "merge cmp q q s = Some (Ok (), s')"
  shows "queues s' = (queues s)(q := \<lparr>root = None, raw_size = 0\<rparr>)
     \<and> next_addr s' = next_addr s
     \<and> (\<forall>x. x \<notin> root_addr t \<longrightarrow> nodes s' x = nodes s x)"
proof (cases t)
  case Absent
  with rt run show ?thesis
    by (auto simp add: merge_def bnd_get_root meld_nodes_def bnd_ret bnd_set_root
        bnd_get_raw_size bnd_set_raw_size set_raw_size_apply)
next
  case (NodeAt a v c sb)
  with rt st have r: "root (queues s q) = Some a"
    and n: "nodes s a = Some \<lparr>val = v, child = root_ptr c, sibling = root_ptr sb\<rparr>"
    by auto
  show ?thesis
  proof (cases "cmp (calls s) v v")
    case (Inl x)
    from meld_nodes_throw[OF n n, of cmp x] Inl
    have "meld_nodes cmp (Some a) (Some a) s =
        Some (Throw runtime_error, s\<lparr>calls := calls s @ [(v, v)]\<rparr>)" by simp
    then have "merge cmp q q s = Some (Throw runtime_error, s\<lparr>calls := calls s @ [(v, v)]\<rparr>)"
      using r by (simp add: merge_def bnd_get_root bnd_eq_throw)
    with run show ?thesis by simp
  next
    case (Inr b)
    with r n run NodeAt show ?thesis
      by (cases b) (auto simp add: merge_def meld_nodes_def prims)
  qed
qed

lemma step_merge:
  fixes cmp :: "('a, 'e) Compare"
  assumes w: "world_ok lt s T" and swo: "strict_weak_order lt" and ag: "cmp_agrees cmp lt"
    and run: "merge cmp q q' s = Some (Ok (), s')"
  shows "\<exists>T'. world_ok lt s' T'"
proof (cases "q = q'")
  case True
  note hk = world_okD(1)[OF w]
  note wq = hk world_okD(2-6)[OF w, of q]
  from merge_self[OF wq(2,3) run[folded True]]
  have qs: "queues s' = (queues s)(q := \<lparr>root = None, raw_size = 0\<rparr>)"
    and nx: "next_addr s' = next_addr s"
    and fr: "\<forall>x. x \<notin> root_addr (T q) \<longrightarrow> nodes s' x = nodes s x"
    by auto
  have hp: "heap_ok s'"
    unfolding heap_ok_def
  proof (intro allI impI)
    fix x assume x: "next_addr s' \<le> x"
    then have "x \<notin> root_addr (T q)"
      using nx stored_below_next[OF hk wq(3), of x] root_addr_subset[of "T q"] by auto
    with fr have "nodes s' x = nodes s x" by simp
    then show "nodes s' x = None" using hk x nx by (simp add: heap_ok_def)
  qed
  have "world_ok lt s' (T(q := Absent))"
  proof (rule world_ok_update[OF w hp])
    show "root (queues s' q) = root_ptr Absent" using qs by simp
    show "queues s' p = queues s p" if "p \<noteq> q" for p using qs that by simp
    show "nodes s' x = nodes s x" if "p \<noteq> q" "x \<in> set (addrs (T p))" for p x
    proof -
      have "x \<notin> set (addrs (T q))" using world_okD(7)[OF w that(1)] that(2) by auto
      with fr root_addr_subset[of "T q"] show ?thesis by auto
    qed
  qed simp_all
  then show ?thesis by blast
next
  case False
  note hk = world_okD(1)[OF w]
  note wa = world_okD(2-6)[OF w, of q]
  note wb = world_okD(2-6)[OF w, of q']
  have dj: "set (addrs (T q)) \<inter> set (addrs (T q')) = {}" by (rule world_okD(7)[OF w False])
  have di: "distinct (addrs (T q) @ addrs (T q'))" using wa(3) wb(3) dj by simp
  note spec = merge_spec[OF False wa(1,2) wb(1,2) di, of cmp]
  show ?thesis
  proof (cases "meld_answer cmp (calls s) (T q) (T q')")
    case (Inl x)
    with spec run show ?thesis by simp
  next
    case (Inr r)
    define t' where "t' = meld_t (\<lambda>_ _. r) (T q) (T q')"
    from spec Inr run have st: "stored (nodes s') t'"
      and qs: "queues s' = (queues s)(q := \<lparr>root = root_ptr t',
                 raw_size = raw_size (queues s q) + raw_size (queues s q')\<rparr>,
               q' := \<lparr>root = None, raw_size = 0\<rparr>)"
      and nx: "next_addr s' = next_addr s"
      and fr: "\<forall>x. x \<notin> root_addr (T q) \<union> root_addr (T q') \<longrightarrow> nodes s' x = nodes s x"
      unfolding t'_def by auto
    have t'_lt: "t' = meld_t lt (T q) (T q')" unfolding t'_def by (rule meld_t_agrees[OF ag Inr])
    have ad: "set (addrs t') = set (addrs (T q)) \<union> set (addrs (T q'))"
      unfolding t'_def by (rule meld_t_addrs[OF wa(4) wb(4)])
    have sub: "root_addr (T q) \<union> root_addr (T q') \<subseteq> set (addrs (T q)) \<union> set (addrs (T q'))"
      using root_addr_subset[of "T q"] root_addr_subset[of "T q'"] by auto
    have hp: "heap_ok s'"
      unfolding heap_ok_def
    proof (intro allI impI)
      fix x assume x: "next_addr s' \<le> x"
      then have "x \<notin> set (addrs (T q)) \<union> set (addrs (T q'))"
        using nx stored_below_next[OF hk wa(2), of x] stored_below_next[OF hk wb(2), of x] by auto
      with fr sub have "nodes s' x = nodes s x" by auto
      then show "nodes s' x = None" using hk x nx by (simp add: heap_ok_def)
    qed
    define T1 where "T1 = T(q' := Absent)"
    define s1 where "s1 = s\<lparr>queues := (queues s)(q' := \<lparr>root = None, raw_size = 0\<rparr>)\<rparr>"
    have w1: "world_ok lt s1 T1"
      unfolding T1_def
      using hk by (intro world_ok_update[OF w]) (simp_all add: s1_def heap_ok_def)
    have "world_ok lt s' (T1(q := t'))"
    proof (rule world_ok_update[OF w1 hp _ st])
      show "root (queues s' q) = root_ptr t'" using qs False by simp
      show "distinct (addrs t')" unfolding t'_def by (rule meld_t_distinct[OF wa(4) wb(4) di])
      show "sibling_free t'" unfolding t'_def by (rule meld_t_sibling_free[OF wa(4) wb(4)])
      show "heap_ordered lt t'" unfolding t'_lt by (rule heap_ordered_meld_t[OF wa(5) wb(5) wa(4) wb(4) swo])
      show "queues s' p = queues s1 p" if "p \<noteq> q" for p using qs that by (simp add: s1_def)
      show "nodes s' x = nodes s1 x" if "p \<noteq> q" "x \<in> set (addrs (T1 p))" for p x
      proof -
        from that have pq': "p \<noteq> q'" and xp: "x \<in> set (addrs (T p))"
          by (auto simp: T1_def split: if_splits)
        have "x \<notin> set (addrs (T q))" using world_okD(7)[OF w that(1)] xp by auto
        moreover have "x \<notin> set (addrs (T q'))" using world_okD(7)[OF w pq'] xp by auto
        ultimately show ?thesis using fr sub by (auto simp: s1_def)
      qed
      show "set (addrs t') \<inter> set (addrs (T1 p)) = {}" if "p \<noteq> q" for p
      proof (cases "p = q'")
        case True
        then show ?thesis by (simp add: T1_def)
      next
        case False
        with world_okD(7)[OF w that] world_okD(7)[OF w False] show ?thesis
          unfolding ad by (auto simp: T1_def)
      qed
    qed
    then show ?thesis by blast
  qed
qed

lemma step_assign:
  assumes w: "world_ok lt s T"
    and run: "(assign k q q' :: ('a, 'e, unit) prog) s = Some (Ok (), s')"
  shows "\<exists>T'. world_ok lt s' T'"
proof (cases "root (queues s q) = root (queues s q')")
  case True
  from assign_same_root[OF True, of k, where 'e = 'e] run have "s' = s" by simp
  with w show ?thesis by blast
next
  case False
  then have ne: "q \<noteq> q'" by auto
  note hk = world_okD(1)[OF w]
  note wa = world_okD(2-6)[OF w, of q]
  note wb = world_okD(2-6)[OF w, of q']
  have dj: "set (addrs (T q)) \<inter> set (addrs (T q')) = {}" by (rule world_okD(7)[OF w ne])
  have di: "distinct (addrs (T q) @ addrs (T q'))" using wa(3) wb(3) dj by simp
  define K where "K = max k (max (depth (T q)) (depth (T q')))"
  have runK: "(assign K q q' :: ('a, 'e, unit) prog) s = Some (Ok (), s')"
    using fuel_leD[OF assign_mono run, of K] by (simp add: K_def)
  have fa: "depth (T q) \<le> K" and fb: "depth (T q') \<le> K" by (simp_all add: K_def)
  note spec = assign_spec[OF hk False wa(1,2) wb(1,2) di fa, where 'e = 'e]
  have nb: "T q' \<noteq> Absent"
  proof
    assume "T q' = Absent"
    with spec runK show False by simp
  qed
  let ?n = "next_addr s"
  define t' where "t' = relocate ?n (T q')"
  from spec nb fb runK have st: "stored (nodes s') t'"
    and qs: "queues s' = (queues s)(q := \<lparr>root = Some ?n, raw_size = raw_size (queues s q')\<rparr>)"
    and nx: "next_addr s' = ?n + length (addrs (T q'))"
    and gone: "\<forall>x. x \<in> set (addrs (T q)) \<longrightarrow> nodes s' x = None"
    and fr: "\<forall>x. x \<notin> set (addrs (T q)) \<and> (x < ?n \<or> next_addr s' \<le> x) \<longrightarrow>
                nodes s' x = nodes s x"
    unfolding t'_def by auto
  have hp: "heap_ok s'"
    unfolding heap_ok_def
  proof (intro allI impI)
    fix x assume x: "next_addr s' \<le> x"
    show "nodes s' x = None"
    proof (cases "x \<in> set (addrs (T q))")
      case True
      with gone show ?thesis by simp
    next
      case False
      with fr x have "nodes s' x = nodes s x" by simp
      moreover have "?n \<le> x" using x nx by simp
      ultimately show ?thesis using hk by (simp add: heap_ok_def)
    qed
  qed
  have ad: "set (addrs t') = {?n..<?n + length (addrs (T q'))}"
    unfolding t'_def by (rule set_addrs_relocate)
  have "world_ok lt s' (T(q := t'))"
  proof (rule world_ok_update[OF w hp _ st])
    show "root (queues s' q) = root_ptr t'" using qs nb by (simp add: t'_def root_ptr_relocate)
    show "distinct (addrs t')" unfolding t'_def by (rule distinct_addrs_relocate)
    show "sibling_free t'" unfolding t'_def using wb(4) by (simp add: sibling_free_relocate)
    show "heap_ordered lt t'" unfolding t'_def using wb(5) by (simp add: heap_ordered_relocate)
    show "queues s' p = queues s p" if "p \<noteq> q" for p using qs that by simp
    show "nodes s' x = nodes s x" if "p \<noteq> q" "x \<in> set (addrs (T p))" for p x
    proof -
      have "x \<notin> set (addrs (T q))" using world_okD(7)[OF w that(1)] that(2) by auto
      moreover have "x < ?n" using stored_below_next[OF hk world_okD(3)[OF w, of p] that(2)] .
      ultimately show ?thesis using fr by simp
    qed
    show "set (addrs t') \<inter> set (addrs (T p)) = {}" if "p \<noteq> q" for p
      unfolding ad using stored_below_next[OF hk world_okD(3)[OF w, of p]] by fastforce
  qed
  then show ?thesis by blast
qed

lemma step_copy_ctor:
  assumes w: "world_ok lt s T"
    and run: "(copy_ctor k q q' :: ('a, 'e, unit) prog) s = Some (Ok (), s')"
  shows "\<exists>T'. world_ok lt s' T'"
proof -
  define s0 where "s0 = s\<lparr>queues := (queues s)(q := \<lparr>root = None, raw_size = 0\<rparr>)\<rparr>"
  have "(default_ctor q :: ('a, 'e, unit) prog) s = Some (Ok (), s0)"
    by (simp add: default_ctor_def s0_def)
  from step_construct[OF w this] have w0: "world_ok lt s0 (T(q := Absent))" .
  from run have "(assign k q q' :: ('a, 'e, unit) prog) s0 = Some (Ok (), s')"
    by (simp add: copy_ctor_unfold s0_def)
  from step_assign[OF w0 this] show ?thesis .
qed

lemma observers_keep_state:
  "bnd (top_pq q :: ('a, 'e, 'a) prog) (\<lambda>_. ret ()) s = Some (Ok (), s') \<Longrightarrow> s' = s"
  "bnd (size_pq q :: ('a, 'e, 64 word) prog) (\<lambda>_. ret ()) s = Some (Ok (), s') \<Longrightarrow> s' = s"
  "bnd (empty_pq q :: ('a, 'e, bool) prog) (\<lambda>_. ret ()) s = Some (Ok (), s') \<Longrightarrow> s' = s"
  by (auto simp: top_pq_def size_pq_def empty_pq_def prims split: option.splits if_splits)

lemma step_exec:
  fixes cmp :: "('a, 'e) Compare"
  assumes w: "world_ok lt s T" and swo: "strict_weak_order lt" and ag: "cmp_agrees cmp lt"
    and run: "exec cmp k x s = Some (Ok (), s')"
  shows "\<exists>T'. world_ok lt s' T'"
proof (cases x)
  case (Construct q)
  with run step_construct[OF w, of q s'] show ?thesis by auto
next
  case (CopyConstruct q q')
  with run step_copy_ctor[OF w, of k q q' s'] show ?thesis by simp
next
  case (Assign q q')
  with run step_assign[OF w, of k q q' s'] show ?thesis by simp
next
  case (Push q e)
  with run step_push[OF w swo ag, of q e s'] show ?thesis by auto
next
  case (Pop q)
  with run step_pop[OF w swo ag, of k q s'] show ?thesis by auto
next
  case (Top q)
  with run observers_keep_state(1)[of q s s'] w show ?thesis by auto
next
  case (Size q)
  with run observers_keep_state(2)[of q s s'] w show ?thesis by auto
next
  case (Empty q)
  with run observers_keep_state(3)[of q s s'] w show ?thesis by auto
next
  case (Merge q q')
  with run step_merge[OF w swo ag, of q q' s'] show ?thesis by simp
qed

lemma run_world_ok:
  fixes cmp :: "('a, 'e) Compare"
  assumes swo: "strict_weak_order lt" and ag: "cmp_agrees cmp lt"
  shows "world_ok lt s T \<Longrightarrow> run cmp k xs s = Some (Ok (), s') \<Longrightarrow> \<exists>T'. world_ok lt s' T'"
proof (induction xs arbitrary: s T)
  case Nil
  then show ?case by (auto simp: ret_def)
next
  case (Cons x xs)
  from Cons.prems(2) obtain s1 where e: "exec cmp k x s = Some (Ok (), s1)"
    and r: "run cmp k xs s1 = Some (Ok (), s')"
    by (auto simp: bnd_def split: option.splits outcome.splits)
  from step_exec[OF Cons.prems(1) swo ag e] obtain T1 where "world_ok lt s1 T1" by blast
  from Cons.IH[OF this r] show ?case .
qed

lemma push_all_world_ok:
  fixes cmp :: "('a, 'e) Compare"
  assumes swo: "strict_weak_order lt" and ag: "cmp_agrees cmp lt"
  shows "world_ok lt s T \<Longrightarrow> push_all cmp q es s = Some (Ok (), s') \<Longrightarrow>
     \<exists>T'. world_ok lt s' T' \<and> elems (T' q) = elems (T q) + mset es"
proof (induction es arbitrary: s T)
  case Nil
  then show ?case by (auto simp: ret_def)
next
  case (Cons e es)
  from Cons.prems(2) obtain s1 where p: "push cmp q e s = Some (Ok (), s1)"
    and r: "push_all cmp q es s1 = Some (Ok (), s')"
    by (auto simp: bnd_def split: option.splits outcome.splits)
  from step_push[OF Cons.prems(1) swo ag p] obtain t' where
    w1: "world_ok lt s1 (T(q := t'))" and e1: "elems t' = elems (T q) + {#e#}" by blast
  from Cons.IH[OF w1 r] e1 show ?case by auto
qed

lemma top_of_world_ok:
  assumes w: "world_ok lt s T" and swo: "strict_weak_order lt" and ne: "T q \<noteq> Absent"
  shows "\<exists>v. (top_pq q :: ('a, 'e, 'a) prog) s = Some (Ok v, s)
     \<and> v \<in># elems (T q) \<and> (\<forall>x. x \<in># elems (T q) \<longrightarrow> \<not> lt v x)"
proof -
  note wq = world_okD(2-6)[OF w, of q]
  from ne wq(4) obtain a v c where t: "T q = NodeAt a v c Absent" by (cases "T q") auto
  have "(top_pq q :: ('a, 'e, 'a) prog) s = Some (Ok v, s)"
    using wq(1,2) by (simp add: t top_pq_def empty_pq_def prims)
  moreover have "\<not> lt v x" if "x \<in># elems (T q)" for x
    using heap_ordered_root_max[OF wq(5)[unfolded t] swo, of x] that by (simp add: t)
  ultimately show ?thesis by (auto simp: t)
qed

subsection \<open>The example states\<close>

lemma four_pushed_reached:
  "push_all std_less 0 [10, 1, 2, 3] init_state = Some (Ok (), four_pushed)"
  by (simp add: prims push_def meld_nodes_def init_state_def std_less_def four_pushed_def fun_eq_iff)

lemma four_pushed_reached_throwing:
  "push_all (less_throwing_on 3 1) 0 [10, 1, 2, 3] init_state = Some (Ok (), four_pushed)"
  by (simp add: prims push_def meld_nodes_def init_state_def less_throwing_on_def four_pushed_def fun_eq_iff)

lemma four_pushed_wf:
  "heap_ok four_pushed" "root (queues four_pushed 0) = root_ptr four_tree"
  "stored (nodes four_pushed) four_tree" "distinct (addrs four_tree)" "sibling_free four_tree"
  by (simp_all add: four_pushed_def four_tree_def heap_ok_def)

lemma two_queues_reached:
  "bnd (push_all std_less 0 [5, 3]) (\<lambda>_. push_all std_less 1 [4, 2]) init_state =
     Some (Ok (), two_queues)"
  by (simp add: prims push_def meld_nodes_def init_state_def std_less_def two_queues_def fun_eq_iff)

lemma two_queues_wf:
  "heap_ok two_queues"
  "root (queues two_queues 0) = root_ptr first_tree" "stored (nodes two_queues) first_tree"
  "sibling_free first_tree"
  "root (queues two_queues (Suc 0)) = root_ptr second_tree" "stored (nodes two_queues) second_tree"
  "sibling_free second_tree" "distinct (addrs first_tree @ addrs second_tree)"
  "heap_ordered (<) first_tree" "heap_ordered (<) second_tree"
  by (simp_all add: two_queues_def first_tree_def second_tree_def heap_ok_def)

lemma std_less_agrees: "cmp_agrees std_less (<)"
  by (simp add: cmp_agrees_def std_less_def)

lemma less_throwing_agrees: "cmp_agrees (less_throwing_on x y) (<)"
  by (simp add: cmp_agrees_def less_throwing_on_def)

lemma int_less_swo: "strict_weak_order ((<) :: int \<Rightarrow> int \<Rightarrow> bool)"
  by (simp add: strict_weak_order_def)

subsection \<open>The merge pass of pop can throw after the validation pass\<close>

text \<open>
  Claim C1 says that once \<^verbatim>\<open>compare_siblings\<close> has gone over the old root's children
  without throwing, \<^verbatim>\<open>merge_siblings\<close> does not throw, so that a \<^verbatim>\<open>pop\<close> failing with the
  generic runtime failure leaves the queue as it was. The code does otherwise: the
  validation pass compares each child with its right neighbour only, and the merge pass
  also compares the winners of the pairs, which need not be neighbours. After the pushes
  of 10, 1, 2, 3 the root 10 has the children 3, 2, 1. The validation pass compares
  (3, 2) and (2, 1) and returns; the merge pass melds 3 with 2 and then compares (3, 1),
  where the comparator throws. \<^verbatim>\<open>pop\<close> ends with \<^verbatim>\<open>runtime_error\<close>, the sibling links
  of 3 and 2 are already cut, and the node of 1 is no longer reachable from the root:
  the queue holds 10, 3, 2 and still counts 4 elements.
\<close>

theorem pop_merge_pass_throws_after_validation:
  "\<exists>s s1 s2 s3.
     push_all (less_throwing_on 3 1) 0 [10, 1, 2, 3] init_state = Some (Ok (), s)
   \<and> tree_of 9 (nodes s) (root (queues s 0)) =
       Some (NodeAt 0 10 (NodeAt 3 3 Absent (NodeAt 2 2 Absent (NodeAt 1 1 Absent Absent))) Absent)
   \<and> raw_size (queues s 0) = 4
   \<and> compare_siblings (less_throwing_on 3 1) 9 (Some 3) s = Some (Ok (), s1)
   \<and> nodes s1 = nodes s
   \<and> merge_siblings (less_throwing_on 3 1) 9 (Some 3) s1 = Some (Throw runtime_error, s2)
   \<and> pop (less_throwing_on 3 1) 9 0 s = Some (Throw runtime_error, s3)
   \<and> tree_of 9 (nodes s3) (root (queues s3 0)) =
       Some (NodeAt 0 10 (NodeAt 3 3 (NodeAt 2 2 Absent Absent) Absent) Absent)
   \<and> raw_size (queues s3 0) = 4"
  by (simp add: prims push_def pop_def meld_nodes_def compare_siblings_def init_state_def
      less_throwing_on_def eval_nat_numeral)

subsection \<open>meld\<close>

text \<open>
  Claim C2: \<^verbatim>\<open>meld_nodes\<close> returns the other pointer unchanged when one is null, without
  invoking the comparator. On two allocated nodes it invokes the comparator exactly once,
  on the two values; when the comparator returns, the loser's sibling link becomes the
  winner's previous first child, the loser becomes the winner's first child, nothing
  else in the store changes, and the winner is returned. (When the comparator answers
  true the first node is the loser.)
\<close>

theorem meld_nodes_prepends_loser:
  "meld_nodes cmp None p s = Some (Ok p, s)
 \<and> meld_nodes cmp p None s = Some (Ok p, s)
 \<and> (\<forall>a b na nb r. nodes s a = Some na \<and> nodes s b = Some nb
        \<and> cmp (calls s) (val na) (val nb) = Inr r \<longrightarrow>
      (let w = (if r then b else a); l = (if r then a else b);
           nw = (if r then nb else na); nl = (if r then na else nb)
       in \<exists>s'. meld_nodes cmp (Some a) (Some b) s = Some (Ok (Some w), s')
          \<and> calls s' = calls s @ [(val na, val nb)]
          \<and> (\<exists>nl'. nodes s' l = Some nl' \<and> sibling nl' = child nw \<and> val nl' = val nl
                \<and> (l \<noteq> w \<longrightarrow> child nl' = child nl))
          \<and> (\<exists>nw'. nodes s' w = Some nw' \<and> child nw' = Some l \<and> val nw' = val nw
                \<and> (l \<noteq> w \<longrightarrow> sibling nw' = sibling nw))
          \<and> (\<forall>x. x \<noteq> l \<and> x \<noteq> w \<longrightarrow> nodes s' x = nodes s x)
          \<and> queues s' = queues s \<and> next_addr s' = next_addr s))"
proof (intro conjI allI impI)
  show "meld_nodes cmp None p s = Some (Ok p, s)" by (rule meld_nodes_null_left)
  show "meld_nodes cmp p None s = Some (Ok p, s)" by (rule meld_nodes_null_right)
next
  fix a b na nb r
  assume h: "nodes s a = Some na \<and> nodes s b = Some nb \<and> cmp (calls s) (val na) (val nb) = Inr r"
  show "let w = (if r then b else a); l = (if r then a else b);
           nw = (if r then nb else na); nl = (if r then na else nb)
       in \<exists>s'. meld_nodes cmp (Some a) (Some b) s = Some (Ok (Some w), s')
          \<and> calls s' = calls s @ [(val na, val nb)]
          \<and> (\<exists>nl'. nodes s' l = Some nl' \<and> sibling nl' = child nw \<and> val nl' = val nl
                \<and> (l \<noteq> w \<longrightarrow> child nl' = child nl))
          \<and> (\<exists>nw'. nodes s' w = Some nw' \<and> child nw' = Some l \<and> val nw' = val nw
                \<and> (l \<noteq> w \<longrightarrow> sibling nw' = sibling nw))
          \<and> (\<forall>x. x \<noteq> l \<and> x \<noteq> w \<longrightarrow> nodes s' x = nodes s x)
          \<and> queues s' = queues s \<and> next_addr s' = next_addr s"
  proof (cases "a = b")
    case True
    with h have "na = nb" by auto
    with h True show ?thesis by (cases r) (simp_all add: meld_nodes_def prims)
  next
    case False
    with h show ?thesis by (cases r) (simp_all add: meld_nodes_def prims)
  qed
qed

theorem meld_nodes_prepends_loser_witness:
  "nodes two_queues 0 = Some \<lparr>val = 5, child = Some 1, sibling = None\<rparr>
 \<and> nodes two_queues 2 = Some \<lparr>val = 4, child = Some 3, sibling = None\<rparr>
 \<and> std_less (calls two_queues) 5 4 = Inr False
 \<and> (\<exists>s'. meld_nodes std_less (Some 0) (Some 2) two_queues = Some (Ok (Some 0), s')
      \<and> calls s' = calls two_queues @ [(5, 4)]
      \<and> nodes s' 2 = Some \<lparr>val = 4, child = Some 3, sibling = Some 1\<rparr>
      \<and> nodes s' 0 = Some \<lparr>val = 5, child = Some 2, sibling = None\<rparr>
      \<and> nodes s' 1 = nodes two_queues 1 \<and> nodes s' 3 = nodes two_queues 3)"
proof -
  have h: "nodes two_queues 0 = Some \<lparr>val = 5, child = Some 1, sibling = None\<rparr>
     \<and> nodes two_queues 2 = Some \<lparr>val = 4, child = Some 3, sibling = None\<rparr>
     \<and> std_less (calls two_queues) (val \<lparr>val = 5::int, child = Some 1, sibling = None\<rparr>)
          (val \<lparr>val = 4::int, child = Some 3, sibling = None\<rparr>) = Inr False"
    by (simp add: two_queues_def std_less_def)
  from meld_nodes_prepends_loser[of std_less None two_queues, THEN conjunct2, THEN conjunct2,
      rule_format, OF h]
  obtain s' where run: "meld_nodes std_less (Some 0) (Some 2) two_queues = Some (Ok (Some 0), s')"
    "calls s' = calls two_queues @ [(5, 4)]"
    and l: "\<exists>nl'. nodes s' 2 = Some nl' \<and> sibling nl' = Some 1 \<and> val nl' = 4 \<and> child nl' = Some 3"
    and w: "\<exists>nw'. nodes s' 0 = Some nw' \<and> child nw' = Some 2 \<and> val nw' = 5 \<and> sibling nw' = None"
    and fr: "\<forall>x. x \<noteq> 2 \<and> x \<noteq> 0 \<longrightarrow> nodes s' x = nodes two_queues x"
    by (auto simp: Let_def)
  from l have "nodes s' 2 = Some \<lparr>val = 4, child = Some 3, sibling = Some 1\<rparr>" by auto
  moreover from w have "nodes s' 0 = Some \<lparr>val = 5, child = Some 2, sibling = None\<rparr>" by auto
  moreover from fr have "nodes s' 1 = nodes two_queues 1" "nodes s' 3 = nodes two_queues 3" by auto
  ultimately have "\<exists>s'. meld_nodes std_less (Some 0) (Some 2) two_queues = Some (Ok (Some 0), s')
      \<and> calls s' = calls two_queues @ [(5, 4)]
      \<and> nodes s' 2 = Some \<lparr>val = 4, child = Some 3, sibling = Some 1\<rparr>
      \<and> nodes s' 0 = Some \<lparr>val = 5, child = Some 2, sibling = None\<rparr>
      \<and> nodes s' 1 = nodes two_queues 1 \<and> nodes s' 3 = nodes two_queues 3"
    using run by blast
  with h show ?thesis by (simp add: std_less_def)
qed

subsection \<open>merge\<close>

text \<open>
  Claim C3: for two distinct queues holding disjoint graphs \<open>ta\<close> and \<open>tb\<close>, a \<^verbatim>\<open>merge\<close>
  that succeeds leaves the source empty (root absent, count 0), the destination with the
  sum of the two counts and a graph whose elements are those of both; when the
  comparator is a strict weak ordering that does not throw here and both graphs are
  heap-ordered, \<^verbatim>\<open>top()\<close> of the destination then returns an element of the union that
  no element of the union exceeds. When the comparator throws in the meld, the store and
  both queue objects are unchanged and the source is not cleared.
\<close>

theorem merge_drains_source:
  fixes cmp :: "('a, 'e) Compare"
  assumes "this \<noteq> other"
    and "root (queues s this) = root_ptr ta" "stored (nodes s) ta" "sibling_free ta"
    and "root (queues s other) = root_ptr tb" "stored (nodes s) tb" "sibling_free tb"
    and "distinct (addrs ta @ addrs tb)"
  shows "case meld_answer cmp (calls s) ta tb of
      Inl x \<Rightarrow> (\<exists>s'. merge cmp this other s = Some (Throw runtime_error, s')
          \<and> nodes s' = nodes s \<and> queues s' = queues s)
    | Inr r \<Rightarrow> (\<exists>s' t'. merge cmp this other s = Some (Ok (), s')
          \<and> root (queues s' other) = None \<and> raw_size (queues s' other) = 0
          \<and> raw_size (queues s' this) = raw_size (queues s this) + raw_size (queues s other)
          \<and> root (queues s' this) = root_ptr t' \<and> stored (nodes s') t'
          \<and> elems t' = elems ta + elems tb
          \<and> (cmp_agrees cmp lt \<and> strict_weak_order lt \<and> heap_ordered lt ta \<and> heap_ordered lt tb
              \<and> t' \<noteq> Absent \<longrightarrow>
               (\<exists>v. (top_pq this :: ('a, 'e, 'a) prog) s' = Some (Ok v, s')
                  \<and> v \<in># elems ta + elems tb
                  \<and> (\<forall>x. x \<in># elems ta + elems tb \<longrightarrow> \<not> lt v x))))"
proof -
  note spec = merge_spec[OF assms(1,2,3,5,6,8), of cmp]
  show ?thesis
  proof (cases "meld_answer cmp (calls s) ta tb")
    case (Inl x)
    with spec show ?thesis by simp
  next
    case (Inr r)
    define t' where "t' = meld_t (\<lambda>_ _. r) ta tb"
    from spec Inr obtain s' where run: "merge cmp this other s = Some (Ok (), s')"
      and st: "stored (nodes s') t'"
      and qs: "queues s' = (queues s)(this := \<lparr>root = root_ptr t',
                 raw_size = raw_size (queues s this) + raw_size (queues s other)\<rparr>,
               other := \<lparr>root = None, raw_size = 0\<rparr>)"
      unfolding t'_def by auto
    have el: "elems t' = elems ta + elems tb"
      unfolding t'_def using assms(4,7) by (rule meld_t_elems)
    have sf: "sibling_free t'" unfolding t'_def using assms(4,7) by (rule meld_t_sibling_free)
    have top: "\<exists>v. (top_pq this :: ('a, 'e, 'a) prog) s' = Some (Ok v, s')
                  \<and> v \<in># elems ta + elems tb
                  \<and> (\<forall>x. x \<in># elems ta + elems tb \<longrightarrow> \<not> lt v x)"
      if h: "cmp_agrees cmp lt" "strict_weak_order lt" "heap_ordered lt ta" "heap_ordered lt tb"
        "t' \<noteq> Absent"
    proof -
      have "t' = meld_t lt ta tb" unfolding t'_def using meld_t_agrees[OF h(1) Inr] .
      then have ho: "heap_ordered lt t'"
        using heap_ordered_meld_t[OF h(3,4) assms(4,7) h(2)] by simp
      from h(5) sf obtain a v c where t': "t' = NodeAt a v c Absent" by (cases t') auto
      have "(top_pq this :: ('a, 'e, 'a) prog) s' = Some (Ok v, s')"
        using st qs assms(1) by (simp add: t' top_pq_def empty_pq_def prims)
      moreover have "v \<in># elems ta + elems tb" unfolding el[symmetric] by (simp add: t')
      moreover have "\<not> lt v x" if "x \<in># elems ta + elems tb" for x
        using heap_ordered_root_max[OF ho[unfolded t'] h(2), of x] that
        unfolding el[symmetric] by (simp add: t')
      ultimately show ?thesis by blast
    qed
    have "\<exists>s' t'. merge cmp this other s = Some (Ok (), s')
          \<and> root (queues s' other) = None \<and> raw_size (queues s' other) = 0
          \<and> raw_size (queues s' this) = raw_size (queues s this) + raw_size (queues s other)
          \<and> root (queues s' this) = root_ptr t' \<and> stored (nodes s') t'
          \<and> elems t' = elems ta + elems tb
          \<and> (cmp_agrees cmp lt \<and> strict_weak_order lt \<and> heap_ordered lt ta \<and> heap_ordered lt tb
              \<and> t' \<noteq> Absent \<longrightarrow>
               (\<exists>v. (top_pq this :: ('a, 'e, 'a) prog) s' = Some (Ok v, s')
                  \<and> v \<in># elems ta + elems tb
                  \<and> (\<forall>x. x \<in># elems ta + elems tb \<longrightarrow> \<not> lt v x)))"
      apply (rule exI[of _ s'], rule exI[of _ t'])
      using run st qs el top assms(1) by simp
    with Inr show ?thesis by simp
  qed
qed

theorem merge_drains_source_witness:
  "(0::nat) \<noteq> 1
 \<and> root (queues two_queues 0) = root_ptr first_tree \<and> stored (nodes two_queues) first_tree
 \<and> sibling_free first_tree
 \<and> root (queues two_queues 1) = root_ptr second_tree \<and> stored (nodes two_queues) second_tree
 \<and> sibling_free second_tree \<and> distinct (addrs first_tree @ addrs second_tree)
 \<and> cmp_agrees std_less (<) \<and> strict_weak_order ((<) :: int \<Rightarrow> int \<Rightarrow> bool)
 \<and> heap_ordered (<) first_tree \<and> heap_ordered (<) second_tree
 \<and> (\<exists>s'. merge (less_throwing_on 5 4) 0 1 two_queues = Some (Throw runtime_error, s')
          \<and> nodes s' = nodes two_queues \<and> queues s' = queues two_queues)
 \<and> (\<exists>s'. merge std_less 0 1 two_queues = Some (Ok (), s')
          \<and> root (queues s' 1) = None \<and> raw_size (queues s' 1) = 0
          \<and> raw_size (queues s' 0) = 4
          \<and> (top_pq 0 :: (int, unit, int) prog) s' = Some (Ok 5, s')
          \<and> (5::int) \<in># elems first_tree + elems second_tree
          \<and> (\<forall>x. x \<in># elems first_tree + elems second_tree \<longrightarrow> \<not> 5 < x))"
proof -
  note wf = two_queues_wf(2-8)[unfolded One_nat_def[symmetric]]
  have ne: "(0::nat) \<noteq> 1" by simp
  have a1: "meld_answer (less_throwing_on 5 4) (calls two_queues) first_tree second_tree = Inl ()"
    by (simp add: meld_answer_def first_tree_def second_tree_def less_throwing_on_def)
  have a2: "meld_answer std_less (calls two_queues) first_tree second_tree = Inr False"
    by (simp add: meld_answer_def first_tree_def second_tree_def std_less_def)
  have sz: "raw_size (queues two_queues 0) + raw_size (queues two_queues 1) = 4"
    by (simp add: two_queues_def)
  from merge_drains_source[OF ne wf, of "less_throwing_on 5 4" "(<)"] a1
  have fail: "\<exists>s'. merge (less_throwing_on 5 4) 0 1 two_queues = Some (Throw runtime_error, s')
          \<and> nodes s' = nodes two_queues \<and> queues s' = queues two_queues"
    by simp
  note T = merge_drains_source[OF ne wf, of std_less "(<)", unfolded a2 sum.case sz]
  from T obtain s' t' where A: "merge std_less 0 1 two_queues = Some (Ok (), s')
          \<and> root (queues s' 1) = None \<and> raw_size (queues s' 1) = 0
          \<and> raw_size (queues s' 0) = 4
          \<and> root (queues s' 0) = root_ptr t' \<and> stored (nodes s') t'
          \<and> elems t' = elems first_tree + elems second_tree
          \<and> (cmp_agrees std_less (<) \<and> strict_weak_order ((<) :: int \<Rightarrow> int \<Rightarrow> bool)
              \<and> heap_ordered (<) first_tree \<and> heap_ordered (<) second_tree
              \<and> t' \<noteq> Absent \<longrightarrow>
               (\<exists>v. (top_pq 0 :: (int, unit, int) prog) s' = Some (Ok v, s')
                  \<and> v \<in># elems first_tree + elems second_tree
                  \<and> (\<forall>x. x \<in># elems first_tree + elems second_tree \<longrightarrow> \<not> v < x)))"
    by blast
  then have el: "elems t' = elems first_tree + elems second_tree" by simp
  have "t' \<noteq> Absent" using el by (auto simp: first_tree_def)
  with A std_less_agrees int_less_swo two_queues_wf(9,10)
  obtain v where v: "(top_pq 0 :: (int, unit, int) prog) s' = Some (Ok v, s')"
    "v \<in># elems first_tree + elems second_tree"
    "\<forall>x. x \<in># elems first_tree + elems second_tree \<longrightarrow> \<not> v < x"
    by blast
  have "v \<in> {5, 3, 4, 2}" using v(2) by (auto simp: first_tree_def second_tree_def)
  moreover have "\<not> v < 5" using v(3)[rule_format, of 5] by (simp add: first_tree_def)
  ultimately have "v = 5" by auto
  have ok_part: "\<exists>s'. merge std_less 0 1 two_queues = Some (Ok (), s')
          \<and> root (queues s' 1) = None \<and> raw_size (queues s' 1) = 0
          \<and> raw_size (queues s' 0) = 4
          \<and> (top_pq 0 :: (int, unit, int) prog) s' = Some (Ok 5, s')
          \<and> (5::int) \<in># elems first_tree + elems second_tree
          \<and> (\<forall>x. x \<in># elems first_tree + elems second_tree \<longrightarrow> \<not> 5 < x)"
    by (rule exI[of _ s']) (use A v \<open>v = 5\<close> in simp)
  show ?thesis
    using ne wf std_less_agrees int_less_swo two_queues_wf(9,10) fail ok_part by simp
qed

subsection \<open>Heap order\<close>

text \<open>
  Claim C4: let the comparator be a strict weak ordering \<open>lt\<close> wherever it returns. In
  every state reached from the initial one by a sequence of public operations that all
  return normally, every queue holds a heap-ordered graph (no node is less than one of
  its children), and \<^verbatim>\<open>top()\<close> of a non-empty queue returns an element of the queue
  that none of its elements exceeds. In particular, after any non-empty sequence of
  pushes on a queue, all returning normally, \<^verbatim>\<open>top()\<close> returns one of the pushed values
  that none of them exceeds.
\<close>

theorem heap_order_invariant:
  fixes cmp :: "('a, 'e) Compare"
  assumes swo: "strict_weak_order lt" and ag: "cmp_agrees cmp lt"
  shows "(\<forall>xs fuel s. run cmp fuel xs init_state = Some (Ok (), s) \<longrightarrow>
           (\<forall>q. \<exists>t. root (queues s q) = root_ptr t \<and> stored (nodes s) t
               \<and> sibling_free t \<and> heap_ordered lt t
               \<and> (t \<noteq> Absent \<longrightarrow>
                    (\<exists>v. (top_pq q :: ('a, 'e, 'a) prog) s = Some (Ok v, s)
                       \<and> v \<in># elems t \<and> (\<forall>x. x \<in># elems t \<longrightarrow> \<not> lt v x)))))
       \<and> (\<forall>es q s. es \<noteq> [] \<and> push_all cmp q es init_state = Some (Ok (), s) \<longrightarrow>
           (\<exists>v. (top_pq q :: ('a, 'e, 'a) prog) s = Some (Ok v, s)
              \<and> v \<in> set es \<and> (\<forall>x. x \<in> set es \<longrightarrow> \<not> lt v x)))"
proof (intro conjI allI impI)
  fix xs fuel s q
  assume "run cmp fuel xs init_state = Some (Ok (), s)"
  from run_world_ok[OF swo ag world_ok_init this] obtain T where w: "world_ok lt s T" by blast
  note wq = world_okD(2-6)[OF w, of q]
  have "T q \<noteq> Absent \<longrightarrow>
      (\<exists>v. (top_pq q :: ('a, 'e, 'a) prog) s = Some (Ok v, s)
         \<and> v \<in># elems (T q) \<and> (\<forall>x. x \<in># elems (T q) \<longrightarrow> \<not> lt v x))"
    using top_of_world_ok[OF w swo, of q] by blast
  with wq show "\<exists>t. root (queues s q) = root_ptr t \<and> stored (nodes s) t
               \<and> sibling_free t \<and> heap_ordered lt t
               \<and> (t \<noteq> Absent \<longrightarrow>
                    (\<exists>v. (top_pq q :: ('a, 'e, 'a) prog) s = Some (Ok v, s)
                       \<and> v \<in># elems t \<and> (\<forall>x. x \<in># elems t \<longrightarrow> \<not> lt v x)))"
    by blast
next
  fix es q s
  assume h: "es \<noteq> [] \<and> push_all cmp q es init_state = Some (Ok (), s)"
  from push_all_world_ok[OF swo ag world_ok_init, of q es s] h
  obtain T where w: "world_ok lt s T" and e: "elems (T q) = mset es" by auto
  from h e have "T q \<noteq> Absent" by (cases "T q") auto
  from top_of_world_ok[OF w swo this, where 'e = 'e]
  show "\<exists>v. (top_pq q :: ('a, 'e, 'a) prog) s = Some (Ok v, s)
              \<and> v \<in> set es \<and> (\<forall>x. x \<in> set es \<longrightarrow> \<not> lt v x)"
    unfolding e by simp
qed

theorem heap_order_invariant_witness:
  "strict_weak_order ((<) :: int \<Rightarrow> int \<Rightarrow> bool) \<and> cmp_agrees std_less (<)
 \<and> (\<exists>s. run std_less 5 [Push 0 5, Push 0 3, Push 0 8, Push 0 1, Push 0 9, Pop 0,
            Push 1 4, Push 1 2, Merge 0 1] init_state = Some (Ok (), s)
        \<and> (\<exists>t. root (queues s 0) = root_ptr t \<and> stored (nodes s) t \<and> heap_ordered (<) t
              \<and> t \<noteq> Absent)
        \<and> (top_pq 0 :: (int, unit, int) prog) s = Some (Ok 8, s))
 \<and> [5, 3, 8, 1, 9 :: int] \<noteq> []
 \<and> (\<exists>s. push_all std_less 0 [5, 3, 8, 1, 9] init_state = Some (Ok (), s)
        \<and> (\<exists>v. (top_pq 0 :: (int, unit, int) prog) s = Some (Ok v, s)
              \<and> v \<in> set [5, 3, 8, 1, 9] \<and> (\<forall>x. x \<in> set [5, 3, 8, 1, 9] \<longrightarrow> \<not> v < x)))"
proof -
  note T = heap_order_invariant[OF int_less_swo std_less_agrees]
  have "\<exists>s. run std_less 5 [Push 0 5, Push 0 3, Push 0 8, Push 0 1, Push 0 9, Pop 0,
            Push 1 4, Push 1 2, Merge 0 1] init_state = Some (Ok (), s)
     \<and> (top_pq 0 :: (int, unit, int) prog) s = Some (Ok 8, s)"
    by (simp add: prims push_def pop_def merge_def meld_nodes_def compare_siblings_def
        top_pq_def empty_pq_def init_state_def std_less_def eval_nat_numeral)
  then obtain s where r: "run std_less 5 [Push 0 5, Push 0 3, Push 0 8, Push 0 1, Push 0 9, Pop 0,
            Push 1 4, Push 1 2, Merge 0 1] init_state = Some (Ok (), s)"
    and t8: "(top_pq 0 :: (int, unit, int) prog) s = Some (Ok 8, s)" by blast
  from T[THEN conjunct1, rule_format, OF r, of 0]
  obtain t where t: "root (queues s 0) = root_ptr t" "stored (nodes s) t" "heap_ordered (<) t"
    by blast
  from t8 have "root (queues s 0) \<noteq> None"
    by (auto simp: top_pq_def empty_pq_def prims split: if_splits)
  with t(1) have "t \<noteq> Absent" by auto
  with r t t8 have part1: "\<exists>s. run std_less 5 [Push 0 5, Push 0 3, Push 0 8, Push 0 1, Push 0 9, Pop 0,
            Push 1 4, Push 1 2, Merge 0 1] init_state = Some (Ok (), s)
        \<and> (\<exists>t. root (queues s 0) = root_ptr t \<and> stored (nodes s) t \<and> heap_ordered (<) t
              \<and> t \<noteq> Absent)
        \<and> (top_pq 0 :: (int, unit, int) prog) s = Some (Ok 8, s)"
    by blast
  have "\<exists>s. push_all std_less 0 [5, 3, 8, 1, 9] init_state = Some (Ok (), s)"
    by (simp add: prims push_def meld_nodes_def init_state_def std_less_def)
  then obtain s2 where p: "push_all std_less 0 [5, 3, 8, 1, 9] init_state = Some (Ok (), s2)"
    by blast
  have ne: "[5, 3, 8, 1, 9 :: int] \<noteq> []" by simp
  from T[THEN conjunct2, rule_format, of "[5, 3, 8, 1, 9]" 0 s2] ne p
  have "\<exists>v. (top_pq 0 :: (int, unit, int) prog) s2 = Some (Ok v, s2)
              \<and> v \<in> set [5, 3, 8, 1, 9] \<and> (\<forall>x. x \<in> set [5, 3, 8, 1, 9] \<longrightarrow> \<not> v < x)"
    by blast
  with p have part2: "\<exists>s. push_all std_less 0 [5, 3, 8, 1, 9] init_state = Some (Ok (), s)
        \<and> (\<exists>v. (top_pq 0 :: (int, unit, int) prog) s = Some (Ok v, s)
              \<and> v \<in> set [5, 3, 8, 1, 9] \<and> (\<forall>x. x \<in> set [5, 3, 8, 1, 9] \<longrightarrow> \<not> v < x))"
    by blast
  from int_less_swo std_less_agrees part1 ne part2 show ?thesis by blast
qed

subsection \<open>A throwing comparator\<close>

text \<open>
  Claim C5: when the comparator throws inside \<^verbatim>\<open>meld_nodes\<close>, the store is untouched
  (only the record of invocations grows) and the exception that leaves is
  \<^verbatim>\<open>runtime_error\<close>, whatever the comparator threw. The validation pass
  \<^verbatim>\<open>compare_siblings\<close> never writes to the store or to a queue, never lets a comparator's
  exception or \<^verbatim>\<open>container_is_empty\<close> through, and turns a comparator's exception inside
  its loop into \<^verbatim>\<open>runtime_error\<close>.
\<close>

theorem comparator_exception_leaves_graphs_untouched:
  "(\<forall>a b na nb e. nodes s a = Some na \<and> nodes s b = Some nb
        \<and> cmp (calls s) (val na) (val nb) = Inl e \<longrightarrow>
       meld_nodes cmp (Some a) (Some b) s =
         Some (Throw runtime_error, s\<lparr>calls := calls s @ [(val na, val nb)]\<rparr>))
 \<and> (\<forall>k p r s'. compare_siblings cmp k p s = Some (r, s') \<longrightarrow>
       nodes s' = nodes s \<and> queues s' = queues s \<and> next_addr s' = next_addr s
       \<and> (\<forall>e. r \<noteq> Throw (comparator_threw e)) \<and> r \<noteq> Throw container_is_empty)
 \<and> (\<forall>k p e s'. p \<noteq> None \<and> compare_siblings_loop cmp k p s = Some (Throw (comparator_threw e), s') \<longrightarrow>
       compare_siblings cmp k p s = Some (Throw runtime_error, s'))"
proof (intro conjI allI impI)
  fix a b na nb e
  assume "nodes s a = Some na \<and> nodes s b = Some nb \<and> cmp (calls s) (val na) (val nb) = Inl e"
  then show "meld_nodes cmp (Some a) (Some b) s =
         Some (Throw runtime_error, s\<lparr>calls := calls s @ [(val na, val nb)]\<rparr>)"
    by (simp add: meld_nodes_throw)
next
  fix k p r s'
  assume a: "compare_siblings cmp k p s = Some (r, s')"
  from compare_siblings_pure[OF a]
  show "nodes s' = nodes s" "queues s' = queues s" "next_addr s' = next_addr s"
    "r \<noteq> Throw container_is_empty" by auto
  fix e
  from compare_siblings_pure[OF a] show "r \<noteq> Throw (comparator_threw e)" by auto
next
  fix k p e s'
  assume "p \<noteq> None \<and> compare_siblings_loop cmp k p s = Some (Throw (comparator_threw e), s')"
  then show "compare_siblings cmp k p s = Some (Throw runtime_error, s')"
    by (auto simp add: compare_siblings_def catch_all_def throw_def)
qed

theorem comparator_exception_leaves_graphs_untouched_witness:
  "nodes four_pushed 3 = Some \<lparr>val = 3, child = None, sibling = Some 2\<rparr>
 \<and> nodes four_pushed 1 = Some \<lparr>val = 1, child = None, sibling = None\<rparr>
 \<and> less_throwing_on 3 1 (calls four_pushed) 3 1 = Inl ()
 \<and> meld_nodes (less_throwing_on 3 1) (Some 3) (Some 1) four_pushed =
     Some (Throw runtime_error, four_pushed\<lparr>calls := calls four_pushed @ [(3, 1)]\<rparr>)
 \<and> compare_siblings_loop (less_throwing_on 2 1) 4 (Some 3) four_pushed =
     Some (Throw (comparator_threw ()), four_pushed\<lparr>calls := calls four_pushed @ [(3, 2), (2, 1)]\<rparr>)
 \<and> compare_siblings (less_throwing_on 2 1) 4 (Some 3) four_pushed =
     Some (Throw runtime_error, four_pushed\<lparr>calls := calls four_pushed @ [(3, 2), (2, 1)]\<rparr>)
 \<and> nodes (four_pushed\<lparr>calls := calls four_pushed @ [(3, 2), (2, 1)]\<rparr>) = nodes four_pushed"
proof -
  have h1: "nodes four_pushed 3 = Some \<lparr>val = 3, child = None, sibling = Some 2\<rparr>
     \<and> nodes four_pushed 1 = Some \<lparr>val = 1, child = None, sibling = None\<rparr>
     \<and> less_throwing_on 3 1 (calls four_pushed) (val \<lparr>val = 3::int, child = None, sibling = Some 2\<rparr>)
          (val \<lparr>val = 1::int, child = None, sibling = None\<rparr>) = Inl ()"
    by (simp add: four_pushed_def less_throwing_on_def)
  have h2: "Some 3 \<noteq> None \<and> compare_siblings_loop (less_throwing_on 2 1) 4 (Some 3) four_pushed =
     Some (Throw (comparator_threw ()), four_pushed\<lparr>calls := calls four_pushed @ [(3, 2), (2, 1)]\<rparr>)"
    by (simp add: four_pushed_def less_throwing_on_def prims eval_nat_numeral)
  note T = comparator_exception_leaves_graphs_untouched[of four_pushed]
  from T[of "less_throwing_on 3 1", THEN conjunct1, rule_format, OF h1]
    T[of "less_throwing_on 2 1", THEN conjunct2, THEN conjunct2, rule_format, OF h2]
    T[of "less_throwing_on 2 1", THEN conjunct2, THEN conjunct1, rule_format,
      of 4 "Some 3" "Throw runtime_error" "four_pushed\<lparr>calls := calls four_pushed @ [(3, 2), (2, 1)]\<rparr>"]
    h1 h2
  show ?thesis by simp
qed

subsection \<open>push\<close>

text \<open>
  Claim C6: on a well-formed queue (its root holds a graph \<open>t\<close> of distinct nodes with no
  sibling at the root), \<^verbatim>\<open>push(e)\<close> either succeeds, and then the queue holds a graph
  whose elements are those of \<open>t\<close> and \<open>e\<close>, and the count is one more; or the comparator
  throws in the meld of the root with the new node, and then the new node is released
  again, \<^verbatim>\<open>runtime_error\<close> is signalled, and the store and every queue object, root and
  count included, are as before the call. \<open>meld_answer\<close> is the comparator's answer to the
  one comparison the meld makes (of the root's value with \<open>e\<close>; none on an empty queue).
\<close>

theorem push_adds_element_or_restores:
  fixes cmp :: "('a, 'e) Compare"
  assumes "heap_ok s" "root (queues s this) = root_ptr t" "stored (nodes s) t"
    "distinct (addrs t)" "sibling_free t"
  shows "case meld_answer cmp (calls s) t (NodeAt (next_addr s) e Absent Absent) of
      Inl x \<Rightarrow> (\<exists>s'. push cmp this e s = Some (Throw runtime_error, s')
          \<and> nodes s' = nodes s \<and> queues s' = queues s)
    | Inr r \<Rightarrow> (\<exists>s' t'. push cmp this e s = Some (Ok (), s')
          \<and> root (queues s' this) = root_ptr t' \<and> stored (nodes s') t'
          \<and> distinct (addrs t') \<and> sibling_free t'
          \<and> elems t' = elems t + {#e#}
          \<and> raw_size (queues s' this) = raw_size (queues s this) + 1)"
proof -
  let ?N = "NodeAt (next_addr s) e Absent Absent"
  note spec = push_spec[OF assms(1-4) refl refl, of cmp e]
  have nt: "next_addr s \<notin> set (addrs t)"
    using stored_below_next[OF assms(1,3), of "next_addr s"] by auto
  show ?thesis
  proof (cases "meld_answer cmp (calls s) t ?N")
    case (Inl x)
    with spec show ?thesis by simp
  next
    case (Inr r)
    with spec obtain s' where "push cmp this e s = Some (Ok (), s')"
      "stored (nodes s') (meld_t (\<lambda>_ _. r) t ?N)"
      "queues s' = (queues s)(this := \<lparr>root = root_ptr (meld_t (\<lambda>_ _. r) t ?N),
               raw_size = raw_size (queues s this) + 1\<rparr>)"
      by auto
    moreover have "distinct (addrs (meld_t (\<lambda>_ _. r) t ?N))"
      using assms(4,5) nt by (intro meld_t_distinct) auto
    moreover have "sibling_free (meld_t (\<lambda>_ _. r) t ?N)"
      using assms(5) by (intro meld_t_sibling_free) auto
    moreover have "elems (meld_t (\<lambda>_ _. r) t ?N) = elems t + {#e#}"
      using assms(5) by (subst meld_t_elems) auto
    ultimately show ?thesis using Inr by auto
  qed
qed

theorem push_adds_element_or_restores_witness:
  "heap_ok four_pushed \<and> root (queues four_pushed 0) = root_ptr four_tree
 \<and> stored (nodes four_pushed) four_tree \<and> distinct (addrs four_tree) \<and> sibling_free four_tree
 \<and> (\<exists>s'. push (less_throwing_on 10 7) 0 7 four_pushed = Some (Throw runtime_error, s')
        \<and> nodes s' = nodes four_pushed \<and> queues s' = queues four_pushed)
 \<and> (\<exists>s' t'. push std_less 0 7 four_pushed = Some (Ok (), s')
        \<and> root (queues s' 0) = root_ptr t' \<and> stored (nodes s') t'
        \<and> elems t' = elems four_tree + {#7#}
        \<and> raw_size (queues s' 0) = 5)"
proof -
  note wf = four_pushed_wf
  have a1: "meld_answer (less_throwing_on 10 7) (calls four_pushed) four_tree
      (NodeAt (next_addr four_pushed) 7 Absent Absent) = Inl ()"
    by (simp add: meld_answer_def four_tree_def less_throwing_on_def)
  have a2: "meld_answer std_less (calls four_pushed) four_tree
      (NodeAt (next_addr four_pushed) 7 Absent Absent) = Inr False"
    by (simp add: meld_answer_def four_tree_def std_less_def)
  have sz: "raw_size (queues four_pushed 0) + 1 = 5" by (simp add: four_pushed_def)
  from push_adds_element_or_restores[OF wf, of "less_throwing_on 10 7" 7]
    push_adds_element_or_restores[OF wf, of std_less 7] wf
  show ?thesis unfolding a1 a2 sz by auto
qed

subsection \<open>Empty queues\<close>

text \<open>
  Claim C7: \<^verbatim>\<open>top()\<close> and \<^verbatim>\<open>pop()\<close> on an empty queue each end with
  \<^verbatim>\<open>container_is_empty\<close> and leave the state as it is; right after default construction
  \<^verbatim>\<open>empty()\<close> is true and \<^verbatim>\<open>size()\<close> is 0; \<^verbatim>\<open>top()\<close> on a queue whose root is an
  allocated node returns that node's value and leaves the state as it is.
\<close>

theorem empty_queue_errors:
  fixes cmp :: "('a, 'e) Compare" and s :: "'a state"
  shows "(root (queues s this) = None \<longrightarrow>
        (top_pq this :: ('a, 'e, 'a) prog) s = Some (Throw container_is_empty, s)
      \<and> pop cmp fuel this s = Some (Throw container_is_empty, s))
   \<and> (\<exists>s'. (default_ctor this :: ('a, 'e, unit) prog) s = Some (Ok (), s')
        \<and> (empty_pq this :: ('a, 'e, bool) prog) s' = Some (Ok True, s')
        \<and> (size_pq this :: ('a, 'e, 64 word) prog) s' = Some (Ok 0, s'))
   \<and> (\<forall>a n. root (queues s this) = Some a \<and> nodes s a = Some n \<longrightarrow>
        (top_pq this :: ('a, 'e, 'a) prog) s = Some (Ok (val n), s))"
  by (simp add: top_pq_def empty_pq_def pop_def size_pq_def default_ctor_def prims)

theorem empty_queue_errors_witness:
  "root (queues (init_state :: int state) 0) = None
   \<and> (top_pq 0 :: (int, unit, int) prog) init_state = Some (Throw container_is_empty, init_state)
   \<and> pop std_less 5 0 init_state = Some (Throw container_is_empty, init_state)
   \<and> root (queues four_pushed 0) = Some 0
   \<and> nodes four_pushed 0 = Some \<lparr>val = 10, child = Some 3, sibling = None\<rparr>
   \<and> (top_pq 0 :: (int, unit, int) prog) four_pushed = Some (Ok 10, four_pushed)"
proof -
  have e: "root (queues (init_state :: int state) 0) = None" by (simp add: init_state_def)
  have r: "root (queues four_pushed 0) = Some 0"
    "nodes four_pushed 0 = Some \<lparr>val = 10, child = Some 3, sibling = None\<rparr>"
    by (simp_all add: four_pushed_def)
  from empty_queue_errors[of init_state 0 std_less 5] e
    empty_queue_errors[of four_pushed 0 std_less 5] r
  show ?thesis by simp
qed

subsection \<open>Copies are independent\<close>

text \<open>
  Claim C8: copy assignment and copy construction of \<open>C\<close> from a non-empty queue \<open>A\<close>
  (both well-formed, on disjoint graphs, \<open>k\<close> bounding their depth) return, and leave \<open>C\<close>
  with a graph of the same values and shape as \<open>A\<close>'s that shares no node with it;
  afterwards a \<^verbatim>\<open>push\<close> or \<^verbatim>\<open>pop\<close> on \<open>C\<close>, whatever its outcome, leaves \<^verbatim>\<open>top()\<close> and
  \<^verbatim>\<open>size()\<close> of \<open>A\<close> as they were, and the other way round.
\<close>

theorem copy_is_independent:
  fixes s :: "'a state" and cmp :: "('a, 'e) Compare"
  assumes ok: "heap_ok s" and ne: "C \<noteq> A"
    and rc: "root (queues s C) = root_ptr tc0" and sc: "stored (nodes s) tc0"
    and ra: "root (queues s A) = root_ptr ta" and sa: "stored (nodes s) ta"
    and fa: "sibling_free ta" and na: "ta \<noteq> Absent"
    and di: "distinct (addrs tc0 @ addrs ta)"
    and dc: "depth tc0 \<le> k" and da: "depth ta \<le> k"
  shows "(\<exists>s1. (assign k C A :: ('a, 'e, unit) prog) s = Some (Ok (), s1)
            \<and> independent_after cmp C A ta k s1)
       \<and> (\<exists>s1. (copy_ctor k C A :: ('a, 'e, unit) prog) s = Some (Ok (), s1)
            \<and> independent_after cmp C A ta k s1)"
proof -
  have indep: "r = Ok () \<and> independent_after cmp C A ta k s1"
    if run: "(assign k C A :: ('a, 'e, unit) prog) s = Some (r, s1)
       \<or> (copy_ctor k C A :: ('a, 'e, unit) prog) s = Some (r, s1)" for r s1
  proof -
    let ?tc = "relocate (next_addr s) ta"
    from copy_spec[OF ok ne rc sc ra sa di dc da na run]
    have r: "r = Ok ()" and st: "stored (nodes s1) ?tc" "stored (nodes s1) ta"
      and q: "queues s1 = (queues s)(C := \<lparr>root = Some (next_addr s),
                 raw_size = raw_size (queues s A)\<rparr>)"
      and nx: "next_addr s1 = next_addr s + length (addrs ta)"
      and hp: "\<forall>x. next_addr s1 \<le> x \<longrightarrow> nodes s1 x = None"
      by auto
    have ok1: "heap_ok s1" using hp by (simp add: heap_ok_def)
    have rc1: "root (queues s1 C) = root_ptr ?tc" using q na by (simp add: root_ptr_relocate)
    have ra1: "root (queues s1 A) = root_ptr ta" using q ne ra by simp
    have sz: "raw_size (queues s1 C) = raw_size (queues s1 A)" using q ne by simp
    have dj: "set (addrs ?tc) \<inter> set (addrs ta) = {}"
      using stored_below_next_set[OF ok sa] by (auto simp: set_addrs_relocate)
    have "independent_after cmp C A ta k s1"
      using di fa da
      by (intro independent_afterI[OF ok1 ne rc1 st(1) _ _ ra1 st(2) _ _ dj _ sz])
        (simp_all add: distinct_addrs_relocate sibling_free_relocate same_shape_relocate)
    with r show ?thesis by simp
  qed
  have ne_root: "root (queues s C) \<noteq> root (queues s A)"
  proof
    assume e: "root (queues s C) = root (queues s A)"
    from na obtain b vb cb sbb where ta: "ta = NodeAt b vb cb sbb" by (cases ta) auto
    with e rc ra obtain v c sb' where "tc0 = NodeAt b v c sb'" using root_ptr_Some[of tc0 b] by auto
    with ta di show False by auto
  qed
  from assign_spec[OF ok ne_root rc sc ra sa di dc, THEN conjunct2] na da
  obtain s1 where a: "(assign k C A :: ('a, 'e, unit) prog) s = Some (Ok (), s1)" by blast
  define s0 where "s0 = s\<lparr>queues := (queues s)(C := \<lparr>root = None, raw_size = 0\<rparr>)\<rparr>"
  have "root (queues s0 C) \<noteq> root (queues s0 A)" using ne ra na by (cases ta) (auto simp: s0_def)
  from assign_spec[OF _ this, of Absent ta k, THEN conjunct2] ok ne ra sa di na da
  obtain s2 where "(assign k C A :: ('a, 'e, unit) prog) s0 = Some (Ok (), s2)"
    by (auto simp: s0_def heap_ok_def)
  then have c: "(copy_ctor k C A :: ('a, 'e, unit) prog) s = Some (Ok (), s2)"
    by (simp add: copy_ctor_unfold s0_def)
  from a indep[of "Ok ()" s1] c indep[of "Ok ()" s2] show ?thesis by blast
qed

theorem copy_is_independent_witness:
  "heap_ok four_pushed \<and> (1::nat) \<noteq> 0
 \<and> root (queues four_pushed 1) = root_ptr (Absent :: int ntree)
 \<and> stored (nodes four_pushed) (Absent :: int ntree)
 \<and> root (queues four_pushed 0) = root_ptr four_tree \<and> stored (nodes four_pushed) four_tree
 \<and> sibling_free four_tree \<and> four_tree \<noteq> Absent
 \<and> distinct (addrs (Absent :: int ntree) @ addrs four_tree)
 \<and> depth (Absent :: int ntree) \<le> 4 \<and> depth four_tree \<le> 4
 \<and> (\<exists>s1. (assign 4 1 0 :: (int, unit, unit) prog) four_pushed = Some (Ok (), s1)
        \<and> independent_after std_less 1 0 four_tree 4 s1)
 \<and> (\<exists>s1. (copy_ctor 4 1 0 :: (int, unit, unit) prog) four_pushed = Some (Ok (), s1)
        \<and> independent_after std_less 1 0 four_tree 4 s1)"
proof -
  have h: "heap_ok four_pushed" "(1::nat) \<noteq> 0"
    "root (queues four_pushed 1) = root_ptr (Absent :: int ntree)"
    "stored (nodes four_pushed) (Absent :: int ntree)"
    "root (queues four_pushed 0) = root_ptr four_tree" "stored (nodes four_pushed) four_tree"
    "sibling_free four_tree" "four_tree \<noteq> Absent"
    "distinct (addrs (Absent :: int ntree) @ addrs four_tree)"
    "depth (Absent :: int ntree) \<le> 4" "depth four_tree \<le> 4"
    by (simp_all add: four_pushed_def four_tree_def heap_ok_def)
  from copy_is_independent[OF h, of std_less] h show ?thesis by simp
qed

subsection \<open>A failed pop and the count\<close>

text \<open>
  Claim C9 says that the count is zero exactly when the root is absent and equals the
  number of nodes reachable from the root, also after a \<^verbatim>\<open>pop\<close> that fails with the
  generic runtime failure. The code does otherwise, by the defect of claim C1: here the
  comparator throws on its fourth invocation. After the pushes of 3, 1, 2 (two
  invocations) the root 3 has the children 2, 1. \<^verbatim>\<open>pop\<close> validates with the third
  invocation, cuts the sibling links of 2 and 1, and the meld of 2 with 1 makes the
  fourth, which throws. \<^verbatim>\<open>pop\<close> ends with \<^verbatim>\<open>runtime_error\<close>; two nodes are reachable from
  the root and the count is still 3.
\<close>

theorem failed_pop_breaks_size_invariant:
  "\<exists>s s'.
     push_all (less_throwing_at 3) 0 [3, 1, 2] init_state = Some (Ok (), s)
   \<and> tree_of 9 (nodes s) (root (queues s 0)) =
       Some (NodeAt 0 3 (NodeAt 2 2 Absent (NodeAt 1 1 Absent Absent)) Absent)
   \<and> raw_size (queues s 0) = 3
   \<and> pop (less_throwing_at 3) 9 0 s = Some (Throw runtime_error, s')
   \<and> calls s' = [(3, 1), (3, 2), (2, 1), (2, 1)]
   \<and> tree_of 9 (nodes s') (root (queues s' 0)) =
       Some (NodeAt 0 3 (NodeAt 2 2 Absent Absent) Absent)
   \<and> map_option (length \<circ> addrs) (tree_of 9 (nodes s') (root (queues s' 0))) = Some 2
   \<and> raw_size (queues s' 0) = 3"
  by (simp add: prims push_def pop_def meld_nodes_def compare_siblings_def init_state_def
      less_throwing_at_def eval_nat_numeral)

subsection \<open>Copying dereferences the source's root\<close>

text \<open>
  Claim C10: after the same-root guard, copy construction and copy assignment call
  \<^verbatim>\<open>recursive_dup\<close> on the source's root without a test. For two distinct well-formed
  queues: when the source \<open>A\<close> is not empty both return normally (no access through an
  absent node) and \<open>C\<close> is a valid queue on a graph of its own with \<open>A\<close>'s values, shape
  and count; when the two roots are the same (self-assignment, or both empty) the guard
  returns at once with the state unchanged; copy construction from an empty source
  returns with \<open>C\<close> empty, because the new object's root is null as the source's is; and
  copy assignment from an empty source onto a non-empty destination goes through the
  null root: undefined behaviour.
\<close>

theorem copy_dereferences_source_root:
  fixes s :: "'a state"
  assumes ok: "heap_ok s" and ne: "C \<noteq> A"
    and rc: "root (queues s C) = root_ptr tc0" and sc: "stored (nodes s) tc0"
    and ra: "root (queues s A) = root_ptr ta" and sa: "stored (nodes s) ta"
    and di: "distinct (addrs tc0 @ addrs ta)"
    and dc: "depth tc0 \<le> k" and da: "depth ta \<le> k"
  shows "(ta \<noteq> Absent \<longrightarrow>
          (\<forall>r s1. (assign k C A :: ('a, 'e, unit) prog) s = Some (r, s1)
                \<or> (copy_ctor k C A :: ('a, 'e, unit) prog) s = Some (r, s1) \<longrightarrow>
             r = Ok () \<and> (\<exists>tc. root (queues s1 C) = root_ptr tc \<and> stored (nodes s1) tc
                \<and> distinct (addrs tc) \<and> same_shape ta tc
                \<and> set (addrs tc) \<inter> set (addrs ta) = {}
                \<and> root (queues s1 A) = root_ptr ta \<and> stored (nodes s1) ta
                \<and> raw_size (queues s1 C) = raw_size (queues s1 A)))
        \<and> (\<exists>s1. (assign k C A :: ('a, 'e, unit) prog) s = Some (Ok (), s1))
        \<and> (\<exists>s1. (copy_ctor k C A :: ('a, 'e, unit) prog) s = Some (Ok (), s1)))
     \<and> (ta = Absent \<longrightarrow>
          (\<exists>s1. (copy_ctor k C A :: ('a, 'e, unit) prog) s = Some (Ok (), s1)
             \<and> root (queues s1 C) = None \<and> raw_size (queues s1 C) = 0 \<and> nodes s1 = nodes s))
     \<and> (ta = Absent \<and> tc0 \<noteq> Absent \<longrightarrow>
          (\<exists>s1. (assign k C A :: ('a, 'e, unit) prog) s = Some (Throw undefined_behaviour, s1)))
     \<and> (\<forall>q1 q2. root (queues s q1) = root (queues s q2) \<longrightarrow>
          (assign k q1 q2 :: ('a, 'e, unit) prog) s = Some (Ok (), s))"
proof (intro conjI impI allI)
  fix r s1
  assume na: "ta \<noteq> Absent"
    and run: "(assign k C A :: ('a, 'e, unit) prog) s = Some (r, s1)
                \<or> (copy_ctor k C A :: ('a, 'e, unit) prog) s = Some (r, s1)"
  let ?tc = "relocate (next_addr s) ta"
  from copy_spec[OF ok ne rc sc ra sa di dc da na run]
  have r: "r = Ok ()" and st: "stored (nodes s1) ?tc" "stored (nodes s1) ta"
    and q: "queues s1 = (queues s)(C := \<lparr>root = Some (next_addr s),
                 raw_size = raw_size (queues s A)\<rparr>)"
    by auto
  show "r = Ok ()" by (rule r)
  have "root (queues s1 C) = root_ptr ?tc" using q na by (simp add: root_ptr_relocate)
  moreover have "root (queues s1 A) = root_ptr ta" using q ne ra by simp
  moreover have "raw_size (queues s1 C) = raw_size (queues s1 A)" using q ne by simp
  moreover have "set (addrs ?tc) \<inter> set (addrs ta) = {}"
    using stored_below_next_set[OF ok sa] by (auto simp: set_addrs_relocate)
  ultimately show "\<exists>tc. root (queues s1 C) = root_ptr tc \<and> stored (nodes s1) tc
                \<and> distinct (addrs tc) \<and> same_shape ta tc
                \<and> set (addrs tc) \<inter> set (addrs ta) = {}
                \<and> root (queues s1 A) = root_ptr ta \<and> stored (nodes s1) ta
                \<and> raw_size (queues s1 C) = raw_size (queues s1 A)"
    using st distinct_addrs_relocate[of "next_addr s" ta] same_shape_relocate[of ta "next_addr s"]
    by blast
next
  assume na: "ta \<noteq> Absent"
  have ne_root: "root (queues s C) \<noteq> root (queues s A)"
  proof
    assume e: "root (queues s C) = root (queues s A)"
    from na obtain b vb cb sbb where ta: "ta = NodeAt b vb cb sbb" by (cases ta) auto
    with e rc ra obtain v c sb' where "tc0 = NodeAt b v c sb'" using root_ptr_Some[of tc0 b] by auto
    with ta di show False by auto
  qed
  from assign_spec[OF ok ne_root rc sc ra sa di dc, THEN conjunct2] na da
  show "\<exists>s1. (assign k C A :: ('a, 'e, unit) prog) s = Some (Ok (), s1)" by blast
  define s0 where "s0 = s\<lparr>queues := (queues s)(C := \<lparr>root = None, raw_size = 0\<rparr>)\<rparr>"
  have "root (queues s0 C) \<noteq> root (queues s0 A)" using ne ra na by (cases ta) (auto simp: s0_def)
  from assign_spec[OF _ this, of Absent ta k, THEN conjunct2] ok ne ra sa di na da
  obtain s2 where "(assign k C A :: ('a, 'e, unit) prog) s0 = Some (Ok (), s2)"
    by (auto simp: s0_def heap_ok_def)
  then show "\<exists>s1. (copy_ctor k C A :: ('a, 'e, unit) prog) s = Some (Ok (), s1)"
    by (auto simp: copy_ctor_unfold s0_def)
next
  assume "ta = Absent"
  with ra ne show "\<exists>s1. (copy_ctor k C A :: ('a, 'e, unit) prog) s = Some (Ok (), s1)
             \<and> root (queues s1 C) = None \<and> raw_size (queues s1 C) = 0 \<and> nodes s1 = nodes s"
    by (simp add: copy_ctor_unfold assign_same_root)
next
  assume h: "ta = Absent \<and> tc0 \<noteq> Absent"
  then have "root (queues s C) \<noteq> root (queues s A)" using rc ra by (cases tc0) auto
  from assign_spec[OF ok this rc sc ra sa di dc, THEN conjunct1] h
  show "\<exists>s1. (assign k C A :: ('a, 'e, unit) prog) s = Some (Throw undefined_behaviour, s1)"
    by blast
next
  fix q1 q2
  assume "root (queues s q1) = root (queues s q2)"
  then show "(assign k q1 q2 :: ('a, 'e, unit) prog) s = Some (Ok (), s)"
    by (rule assign_same_root)
qed

theorem copy_dereferences_source_root_witness:
  "heap_ok four_pushed \<and> (0::nat) \<noteq> 1
 \<and> root (queues four_pushed 0) = root_ptr four_tree \<and> stored (nodes four_pushed) four_tree
 \<and> root (queues four_pushed 1) = root_ptr (Absent :: int ntree)
 \<and> stored (nodes four_pushed) (Absent :: int ntree)
 \<and> distinct (addrs four_tree @ addrs (Absent :: int ntree))
 \<and> depth four_tree \<le> 4 \<and> depth (Absent :: int ntree) \<le> 4 \<and> four_tree \<noteq> Absent
 \<and> (\<exists>s1. (assign 4 0 1 :: (int, unit, unit) prog) four_pushed = Some (Throw undefined_behaviour, s1))
 \<and> (\<exists>s1. (copy_ctor 4 0 1 :: (int, unit, unit) prog) four_pushed = Some (Ok (), s1)
        \<and> root (queues s1 0) = None \<and> raw_size (queues s1 0) = 0)
 \<and> (assign 4 0 0 :: (int, unit, unit) prog) four_pushed = Some (Ok (), four_pushed)
 \<and> heap_ok two_queues
 \<and> root (queues two_queues 0) = root_ptr first_tree \<and> stored (nodes two_queues) first_tree
 \<and> root (queues two_queues 1) = root_ptr second_tree \<and> stored (nodes two_queues) second_tree
 \<and> distinct (addrs first_tree @ addrs second_tree)
 \<and> depth first_tree \<le> 4 \<and> depth second_tree \<le> 4 \<and> second_tree \<noteq> Absent
 \<and> (\<exists>s1. (assign 4 0 1 :: (int, unit, unit) prog) two_queues = Some (Ok (), s1))
 \<and> (\<exists>s1. (copy_ctor 4 0 1 :: (int, unit, unit) prog) two_queues = Some (Ok (), s1))"
proof -
  have h: "heap_ok four_pushed" "(0::nat) \<noteq> 1"
    "root (queues four_pushed 0) = root_ptr four_tree" "stored (nodes four_pushed) four_tree"
    "root (queues four_pushed 1) = root_ptr (Absent :: int ntree)"
    "stored (nodes four_pushed) (Absent :: int ntree)"
    "distinct (addrs four_tree @ addrs (Absent :: int ntree))"
    "depth four_tree \<le> 4" "depth (Absent :: int ntree) \<le> 4"
    and n: "four_tree \<noteq> Absent"
    by (simp_all add: four_pushed_def four_tree_def heap_ok_def)
  have g: "heap_ok two_queues" "(0::nat) \<noteq> 1"
    "root (queues two_queues 0) = root_ptr first_tree" "stored (nodes two_queues) first_tree"
    "root (queues two_queues 1) = root_ptr second_tree" "stored (nodes two_queues) second_tree"
    "distinct (addrs first_tree @ addrs second_tree)"
    "depth first_tree \<le> 4" "depth second_tree \<le> 4"
    and m: "second_tree \<noteq> Absent"
    by (simp_all add: two_queues_def first_tree_def second_tree_def heap_ok_def)
  note T1 = copy_dereferences_source_root[OF h, where 'e = unit]
  note T2 = copy_dereferences_source_root[OF g, where 'e = unit]
  from T1 n have a: "\<exists>s1. (assign 4 0 1 :: (int, unit, unit) prog) four_pushed =
      Some (Throw undefined_behaviour, s1)" by blast
  from T1 have b: "\<exists>s1. (copy_ctor 4 0 1 :: (int, unit, unit) prog) four_pushed = Some (Ok (), s1)
        \<and> root (queues s1 0) = None \<and> raw_size (queues s1 0) = 0" by blast
  from T1 have c: "(assign 4 0 0 :: (int, unit, unit) prog) four_pushed = Some (Ok (), four_pushed)"
    by blast
  from T2 m have d: "\<exists>s1. (assign 4 0 1 :: (int, unit, unit) prog) two_queues = Some (Ok (), s1)"
    "\<exists>s1. (copy_ctor 4 0 1 :: (int, unit, unit) prog) two_queues = Some (Ok (), s1)"
    by blast+
  from h n g m a b c d show ?thesis by simp
qed

end
